theory Spec2Isabelle
  imports Main "HOL-Library.Word" "HOL-Library.Multiset"
begin

unbundle bit_operations_syntax

section \<open>Shared: panics as values\<close>

text \<open>
  A Go panic (an explicit \<^verbatim>\<open>panic(...)\<close>, or the run-time's nil pointer dereference) is
  a value: every operation that can panic returns \<open>panic + result\<close>, with \<open>Inl\<close> the panic.
\<close>

datatype panic = Panic string

section \<open>Package consistenthash: the ring\<close>

text \<open>
  \<^verbatim>\<open>type Hash func(data []byte) uint32\<close>. A Go string converted with \<^verbatim>\<open>[]byte(s)\<close> is its
  bytes, which is what \<open>string\<close> (a list of 8-bit characters) is.
\<close>

type_synonym Hash = "string \<Rightarrow> 32 word"

text \<open>
  \<^verbatim>\<open>type Map struct { hash Hash; replicas int; keys []int; hashMap map[int]string }\<close>.
  Go's \<^verbatim>\<open>int\<close> is taken at its 64-bit width, where \<^verbatim>\<open>int(x)\<close> of a \<^verbatim>\<open>uint32\<close> is the
  non-negative number \<open>uint x\<close>; a slice is a list, the nil slice the empty list.
\<close>

record Map =
  hash :: Hash
  replicas :: int
  keys :: "int list"
  hashMap :: "int \<rightharpoonup> string"

subsection \<open>Standard-library functions the package calls\<close>

text \<open>\<^verbatim>\<open>crc32.ChecksumIEEE\<close>: the CRC-32 of the data with the IEEE polynomial (reflected form
  \<^verbatim>\<open>0xedb88320\<close>), initial value and final complement \<^verbatim>\<open>0xffffffff\<close>.\<close>

definition crc32_bit :: "32 word \<Rightarrow> 32 word" where
  "crc32_bit c = (if bit c 0 then drop_bit 1 c XOR 0xEDB88320 else drop_bit 1 c)"

definition crc32_byte :: "32 word \<Rightarrow> char \<Rightarrow> 32 word" where
  "crc32_byte c b = (crc32_bit ^^ 8) (c XOR of_char b)"

definition ChecksumIEEE :: Hash where
  "ChecksumIEEE data = NOT (foldl crc32_byte (NOT 0) data)"

text \<open>\<^verbatim>\<open>strconv.Itoa\<close>: the decimal representation of an int, with a leading minus sign for a
  negative number.\<close>

definition digit_char :: "nat \<Rightarrow> char" where
  "digit_char d = ''0123456789'' ! (d mod 10)"

function Itoa_nat :: "nat \<Rightarrow> string" where
  "Itoa_nat n = (if n < 10 then [digit_char n] else Itoa_nat (n div 10) @ [digit_char (n mod 10)])"
  by pat_completeness auto
termination
  by (relation "measure (\<lambda>n. n)") auto

definition Itoa :: "int \<Rightarrow> string" where
  "Itoa i = (if i < 0 then CHR ''-'' # Itoa_nat (nat (- i)) else Itoa_nat (nat i))"

text \<open>\<^verbatim>\<open>sort.Search(n, f)\<close>: binary search on \<open>[0, n)\<close>,
  \<^verbatim>\<open>i, j := 0, n; for i < j { h := int(uint(i+j) >> 1); if !f(h) { i = h + 1 } else { j = h } }; return i\<close>.
  The indices are non-negative, so they are naturals here.\<close>

function Search_loop :: "nat \<Rightarrow> nat \<Rightarrow> (nat \<Rightarrow> bool) \<Rightarrow> nat" where
  "Search_loop i j f =
     (if i < j then
        (let h = (i + j) div 2 in
         if \<not> f h then Search_loop (h + 1) j f else Search_loop i h f)
      else i)"
  by pat_completeness auto
termination
  by (relation "measure (\<lambda>(i, j, f). j - i)") auto

definition Search :: "nat \<Rightarrow> (nat \<Rightarrow> bool) \<Rightarrow> nat" where
  "Search n f = Search_loop 0 n f"

text \<open>\<^verbatim>\<open>sort.Ints\<close> sorts a slice of ints in increasing order. The sorted arrangement of a
  list of integers is unique, so the library's \<open>sort\<close> computes it.\<close>

definition Ints :: "int list \<Rightarrow> int list" where
  "Ints xs = sort xs"

subsection \<open>New, IsEmpty, Add, Get\<close>

definition consistenthash_New :: "int \<Rightarrow> Hash option \<Rightarrow> Map" where
  "consistenthash_New r fn =
     \<lparr>hash = (case fn of None \<Rightarrow> ChecksumIEEE | Some f \<Rightarrow> f),
      replicas = r, keys = [], hashMap = Map.empty\<rparr>"

definition Map_IsEmpty :: "Map \<Rightarrow> bool" where
  "Map_IsEmpty m = (length (keys m) = 0)"

text \<open>The body of the inner loop of \<^verbatim>\<open>Add\<close>, for replica index \<open>i\<close> of member \<open>key\<close>.\<close>

definition Add_replica :: "string \<Rightarrow> Map \<Rightarrow> int \<Rightarrow> Map" where
  "Add_replica key m i =
     (let h = uint (hash m (Itoa i @ key))
      in m\<lparr>keys := keys m @ [h], hashMap := (hashMap m)(h \<mapsto> key)\<rparr>)"

text \<open>The inner loop \<^verbatim>\<open>for i := 0; i < m.replicas; i++\<close>: it runs for \<open>i = 0, ..., replicas - 1\<close>
  and not at all when \<open>replicas \<le> 0\<close>.\<close>

definition Add_key :: "Map \<Rightarrow> string \<Rightarrow> Map" where
  "Add_key m key = foldl (Add_replica key) m [0..replicas m - 1]"

definition Map_Add :: "Map \<Rightarrow> string list \<Rightarrow> Map" where
  "Map_Add m ks = (let m' = foldl Add_key m ks in m'\<lparr>keys := Ints (keys m')\<rparr>)"

text \<open>Reading a Go map at an absent key gives the zero value, the empty string.\<close>

definition owner :: "Map \<Rightarrow> int \<Rightarrow> string" where
  "owner m h = (case hashMap m h of None \<Rightarrow> [] | Some s \<Rightarrow> s)"

definition Map_Get :: "Map \<Rightarrow> string \<Rightarrow> string" where
  "Map_Get m key =
     (if Map_IsEmpty m then []
      else
        let h = uint (hash m key);
            idx = Search (length (keys m)) (\<lambda>i. keys m ! i \<ge> h);
            idx = (if idx = length (keys m) then 0 else idx)
        in owner m (keys m ! idx))"

section \<open>Package groupcache: HTTPPool as peer picker\<close>

text \<open>
  \<^verbatim>\<open>httpGetter\<close> and the fields of \<^verbatim>\<open>HTTPPool\<close> that \<^verbatim>\<open>NewHTTPPoolOpts\<close>, \<^verbatim>\<open>Set\<close> and
  \<^verbatim>\<open>PickPeer\<close> read or write. The transport is an opaque function handle of type \<open>'t\<close>
  (\<open>None\<close> is nil); the \<^verbatim>\<open>Context\<close> field is used by the HTTP server side only and the mutex
  \<^verbatim>\<open>mu\<close> has no role in a sequential run.
\<close>

record 't httpGetter =
  transport :: "'t option"
  baseURL :: string

record HTTPPoolOptions =
  BasePath :: string
  Replicas :: int
  HashFn :: "Hash option"

record 't HTTPPool =
  Transport :: "'t option"
  self :: string
  opts :: HTTPPoolOptions
  peers :: Map
  httpGetters :: "string \<rightharpoonup> 't httpGetter"

definition defaultBasePath :: string where
  "defaultBasePath = ''/_groupcache/''"

definition defaultReplicas :: int where
  "defaultReplicas = 50"

text \<open>
  \<^verbatim>\<open>NewHTTPPoolOpts(self, o)\<close>. The package variable \<^verbatim>\<open>httpPoolMade\<close> is passed in and
  returned; a second call panics. \<open>None\<close> for the options is the nil pointer, which leaves
  \<^verbatim>\<open>p.opts\<close> at its zero value. The new pool has no transport (the field is set by the
  caller afterwards). Registering the pool as the process's peer picker has no effect on
  the pool itself.
\<close>

definition NewHTTPPoolOpts ::
  "bool \<Rightarrow> string \<Rightarrow> HTTPPoolOptions option \<Rightarrow> panic + ('t HTTPPool \<times> bool)" where
  "NewHTTPPoolOpts httpPoolMade slf opt =
     (if httpPoolMade then Inl (Panic ''groupcache: NewHTTPPool must be called only once'')
      else
        let o0 = (case opt of None \<Rightarrow> \<lparr>BasePath = [], Replicas = 0, HashFn = None\<rparr> | Some x \<Rightarrow> x);
            o1 = (if BasePath o0 = [] then o0\<lparr>BasePath := defaultBasePath\<rparr> else o0);
            o2 = (if Replicas o1 = 0 then o1\<lparr>Replicas := defaultReplicas\<rparr> else o1)
        in Inr (\<lparr>Transport = None, self = slf, opts = o2,
                  peers = consistenthash_New (Replicas o2) (HashFn o2),
                  httpGetters = Map.empty\<rparr>, True))"

definition HTTPPool_Set :: "'t HTTPPool \<Rightarrow> string list \<Rightarrow> 't HTTPPool" where
  "HTTPPool_Set p ps =
     p\<lparr>peers := Map_Add (consistenthash_New (Replicas (opts p)) (HashFn (opts p))) ps,
       httpGetters :=
         foldl (\<lambda>g peer. g(peer \<mapsto> \<lparr>transport = Transport p, baseURL = peer @ BasePath (opts p)\<rparr>))
           Map.empty ps\<rparr>"

text \<open>\<^verbatim>\<open>PickPeer\<close> returns the getter (\<open>None\<close> is nil) and the flag.\<close>

definition HTTPPool_PickPeer :: "'t HTTPPool \<Rightarrow> string \<Rightarrow> 't httpGetter option \<times> bool" where
  "HTTPPool_PickPeer p key =
     (if Map_IsEmpty (peers p) then (None, False)
      else
        let peer = Map_Get (peers p) key
        in if peer \<noteq> self p then (httpGetters p peer, True) else (None, False))"

section \<open>Package singleflight: one run of Do\<close>

text \<open>
  \<^verbatim>\<open>type call struct { wg sync.WaitGroup; val interface{}; err error }\<close>: the wait group is
  its counter; \<open>None\<close> is the nil value and the nil error.
  \<^verbatim>\<open>type Group struct { mu sync.Mutex; m map[string]*call }\<close>: the field \<^verbatim>\<open>m\<close> is called
  \<open>Group_m\<close> here, and \<open>None\<close> is the nil map.
\<close>

record ('v, 'e) call =
  wg :: nat
  call_val :: "'v option"
  call_err :: "'e option"

record ('v, 'e) Group =
  Group_m :: "(string \<rightharpoonup> ('v, 'e) call) option"

text \<open>
  One call of \<^verbatim>\<open>Do(key, fn)\<close> run to its end with no other goroutine running: the work
  function \<open>fn\<close> acts on the state \<open>'w\<close> of the rest of the program and returns its value and
  error. The result is \<open>None\<close> when the call does not return: it found a call of the key
  registered whose wait group is still raised, and nothing else runs to lower it. The map
  holds pointers to the calls, so storing the outcome in the call is an update of the
  registered call.
\<close>

definition Group_Do ::
  "('v, 'e) Group \<Rightarrow> string \<Rightarrow> ('w \<Rightarrow> ('v option \<times> 'e option) \<times> 'w) \<Rightarrow> 'w \<Rightarrow>
     ('v option \<times> 'e option) option \<times> ('v, 'e) Group \<times> 'w" where
  "Group_Do g key fn w =
     (let m0 = (case Group_m g of None \<Rightarrow> Map.empty | Some x \<Rightarrow> x)
      in case m0 key of
           Some c \<Rightarrow>
             (if wg c = 0 then (Some (call_val c, call_err c), g\<lparr>Group_m := Some m0\<rparr>, w)
              else (None, g\<lparr>Group_m := Some m0\<rparr>, w))
         | None \<Rightarrow>
             (let c = \<lparr>wg = 1, call_val = None, call_err = None\<rparr>;
                  m1 = m0(key \<mapsto> c);
                  (r, w') = fn w;
                  c' = c\<lparr>call_val := fst r, call_err := snd r, wg := wg c - 1\<rparr>;
                  m2 = m1(key \<mapsto> c');
                  m3 = m2(key := None)
              in (Some (call_val c', call_err c'), g\<lparr>Group_m := Some m3\<rparr>, w')))"

section \<open>Package lru: the cache\<close>

text \<open>
  \<^verbatim>\<open>type entry struct { key Key; value interface{} }\<close>. The elements of the
  \<^verbatim>\<open>container/list\<close> list are heap objects the map points to, so the cache is modelled with
  an explicit store: an element is its address, \<open>heap\<close> gives the entry an element holds,
  the list \<^verbatim>\<open>ll\<close> is the sequence of its elements from front to back, and the map
  \<^verbatim>\<open>cache\<close> sends a key to an element. \<open>None\<close> for \<open>ll\<close> and \<open>cache\<close> is nil.
  \<open>nextaddr\<close> is the address of the next element \<^verbatim>\<open>PushFront\<close> allocates.
  The eviction callback acts on the state \<open>'w\<close> of the rest of the program, kept in the
  field \<open>world\<close>; \<open>None\<close> is the nil callback.
\<close>

type_synonym addr = nat

record ('k, 'v) entry =
  entry_key :: 'k
  entry_value :: 'v

record ('k, 'v, 'w) Cache =
  MaxEntries :: int
  OnEvicted :: "('k \<Rightarrow> 'v \<Rightarrow> 'w \<Rightarrow> 'w) option"
  ll :: "addr list option"
  cache :: "('k \<rightharpoonup> addr) option"
  heap :: "addr \<rightharpoonup> ('k, 'v) entry"
  nextaddr :: addr
  world :: 'w

subsection \<open>The operations of container/list the cache calls\<close>

text \<open>\<^verbatim>\<open>MoveToFront\<close> and \<^verbatim>\<open>Remove\<close> do nothing for an element that is not in the list.\<close>

definition list_MoveToFront :: "addr list \<Rightarrow> addr \<Rightarrow> addr list" where
  "list_MoveToFront l e = (if e \<in> set l then e # remove1 e l else l)"

definition list_Remove :: "addr list \<Rightarrow> addr \<Rightarrow> addr list" where
  "list_Remove l e = remove1 e l"

definition list_Back :: "addr list \<Rightarrow> addr option" where
  "list_Back l = (if l = [] then None else Some (last l))"

subsection \<open>New, Add, Get, Remove, RemoveOldest, removeElement, Len, Clear\<close>

definition nil_deref :: panic where
  "nil_deref = Panic ''invalid memory address or nil pointer dereference''"

definition lru_New :: "int \<Rightarrow> 'w \<Rightarrow> ('k, 'v, 'w) Cache" where
  "lru_New maxEntries w =
     \<lparr>MaxEntries = maxEntries, OnEvicted = None, ll = Some [], cache = Some Map.empty,
      heap = Map.empty, nextaddr = 0, world = w\<rparr>"

text \<open>The zero value \<^verbatim>\<open>Cache{}\<close> (with the fields the caller may set).\<close>

definition lru_zero :: "int \<Rightarrow> ('k \<Rightarrow> 'v \<Rightarrow> 'w \<Rightarrow> 'w) option \<Rightarrow> 'w \<Rightarrow> ('k, 'v, 'w) Cache" where
  "lru_zero maxEntries cb w =
     \<lparr>MaxEntries = maxEntries, OnEvicted = cb, ll = None, cache = None,
      heap = Map.empty, nextaddr = 0, world = w\<rparr>"

text \<open>
  \<^verbatim>\<open>removeElement(e)\<close>: a method call on the nil list pointer panics, as does reading the
  entry of an element that was never allocated (which no Go pointer can be).
  \<^verbatim>\<open>delete\<close> on a nil map does nothing.
\<close>

definition Cache_removeElement :: "('k, 'v, 'w) Cache \<Rightarrow> addr \<Rightarrow> panic + ('k, 'v, 'w) Cache" where
  "Cache_removeElement c e =
     (case ll c of
        None \<Rightarrow> Inl nil_deref
      | Some l \<Rightarrow>
          (case heap c e of
             None \<Rightarrow> Inl nil_deref
           | Some kv \<Rightarrow>
               (let c1 = c\<lparr>ll := Some (list_Remove l e),
                            cache := map_option (\<lambda>m. m(entry_key kv := None)) (cache c)\<rparr>
                in case OnEvicted c1 of
                     None \<Rightarrow> Inr c1
                   | Some f \<Rightarrow> Inr (c1\<lparr>world := f (entry_key kv) (entry_value kv) (world c1)\<rparr>))))"

definition Cache_RemoveOldest :: "('k, 'v, 'w) Cache \<Rightarrow> panic + ('k, 'v, 'w) Cache" where
  "Cache_RemoveOldest c =
     (if cache c = None then Inr c
      else case ll c of
             None \<Rightarrow> Inl nil_deref
           | Some l \<Rightarrow>
               (case list_Back l of
                  None \<Rightarrow> Inr c
                | Some ele \<Rightarrow> Cache_removeElement c ele))"

definition Cache_Add :: "('k, 'v, 'w) Cache \<Rightarrow> 'k \<Rightarrow> 'v \<Rightarrow> panic + ('k, 'v, 'w) Cache" where
  "Cache_Add c0 k v =
     (let c = (if cache c0 = None then c0\<lparr>cache := Some Map.empty, ll := Some []\<rparr> else c0)
      in case cache c of
           None \<Rightarrow> Inl nil_deref
         | Some m \<Rightarrow>
             (case m k of
                Some ee \<Rightarrow>
                  (case ll c of
                     None \<Rightarrow> Inl nil_deref
                   | Some l \<Rightarrow>
                       (case heap c ee of
                          None \<Rightarrow> Inl nil_deref
                        | Some kv \<Rightarrow>
                            Inr (c\<lparr>ll := Some (list_MoveToFront l ee),
                                   heap := (heap c)(ee \<mapsto> kv\<lparr>entry_value := v\<rparr>)\<rparr>)))
              | None \<Rightarrow>
                  (case ll c of
                     None \<Rightarrow> Inl nil_deref
                   | Some l \<Rightarrow>
                       (let ele = nextaddr c;
                            c1 = c\<lparr>ll := Some (ele # l),
                                   heap := (heap c)(ele \<mapsto> \<lparr>entry_key = k, entry_value = v\<rparr>),
                                   nextaddr := Suc ele,
                                   cache := Some (m(k \<mapsto> ele))\<rparr>
                        in if MaxEntries c1 \<noteq> 0 \<and> int (length (ele # l)) > MaxEntries c1
                           then Cache_RemoveOldest c1 else Inr c1))))"

text \<open>\<^verbatim>\<open>Get\<close> returns the value (\<open>None\<close> is nil), the flag and the cache.\<close>

definition Cache_Get ::
  "('k, 'v, 'w) Cache \<Rightarrow> 'k \<Rightarrow> panic + (('v option \<times> bool) \<times> ('k, 'v, 'w) Cache)" where
  "Cache_Get c k =
     (case cache c of
        None \<Rightarrow> Inr ((None, False), c)
      | Some m \<Rightarrow>
          (case m k of
             Some ele \<Rightarrow>
               (case ll c of
                  None \<Rightarrow> Inl nil_deref
                | Some l \<Rightarrow>
                    (case heap c ele of
                       None \<Rightarrow> Inl nil_deref
                     | Some kv \<Rightarrow>
                         Inr ((Some (entry_value kv), True), c\<lparr>ll := Some (list_MoveToFront l ele)\<rparr>)))
           | None \<Rightarrow> Inr ((None, False), c)))"

definition Cache_Remove :: "('k, 'v, 'w) Cache \<Rightarrow> 'k \<Rightarrow> panic + ('k, 'v, 'w) Cache" where
  "Cache_Remove c k =
     (case cache c of
        None \<Rightarrow> Inr c
      | Some m \<Rightarrow>
          (case m k of
             Some ele \<Rightarrow> Cache_removeElement c ele
           | None \<Rightarrow> Inr c))"

definition Cache_Len :: "('k, 'v, 'w) Cache \<Rightarrow> panic + int" where
  "Cache_Len c =
     (if cache c = None then Inr 0
      else case ll c of None \<Rightarrow> Inl nil_deref | Some l \<Rightarrow> Inr (int (length l)))"

text \<open>
  \<^verbatim>\<open>Clear\<close> ranges over the map, in an order the Go run-time chooses: the order is the
  argument \<open>ord\<close>, a list of the keys of the map. The callback is called for each with the
  key and value of the entry the map's element holds.
\<close>

definition Clear_call ::
  "('k, 'v, 'w) Cache \<Rightarrow> ('k \<Rightarrow> 'v \<Rightarrow> 'w \<Rightarrow> 'w) \<Rightarrow> panic + 'w \<Rightarrow> 'k \<Rightarrow> panic + 'w" where
  "Clear_call c f r k =
     (case r of
        Inl p \<Rightarrow> Inl p
      | Inr w \<Rightarrow>
          (case cache c of
             None \<Rightarrow> Inr w
           | Some m \<Rightarrow>
               (case m k of
                  None \<Rightarrow> Inr w
                | Some e \<Rightarrow>
                    (case heap c e of
                       None \<Rightarrow> Inl nil_deref
                     | Some kv \<Rightarrow> Inr (f (entry_key kv) (entry_value kv) w)))))"

definition Cache_Clear :: "('k, 'v, 'w) Cache \<Rightarrow> 'k list \<Rightarrow> panic + ('k, 'v, 'w) Cache" where
  "Cache_Clear c ord =
     (case (case OnEvicted c of
              None \<Rightarrow> Inr (world c)
            | Some f \<Rightarrow> foldl (Clear_call c f) (Inr (world c)) ord) of
        Inl p \<Rightarrow> Inl p
      | Inr w \<Rightarrow> Inr (c\<lparr>ll := None, cache := None, world := w\<rparr>))"

section \<open>Auxiliary definitions for the statements\<close>

text \<open>The hashes \<^verbatim>\<open>Add\<close> computes for one member: one for each replica index.\<close>

definition replica_hashes :: "Map \<Rightarrow> string \<Rightarrow> int list" where
  "replica_hashes m key = map (\<lambda>i. uint (hash m (Itoa i @ key))) [0..replicas m - 1]"

text \<open>
  The hash function of the ring scenarios, which reads the bytes as a decimal number
  (\<^verbatim>\<open>strconv.Atoi\<close> followed by \<^verbatim>\<open>uint32(i)\<close>). It is used on strings of decimal digits
  only.
\<close>

definition atoi_hash :: Hash where
  "atoi_hash s = word_of_nat (foldl (\<lambda>a c. 10 * a + (of_char c - 48)) 0 s)"

text \<open>The ring after a sequence of calls of \<^verbatim>\<open>Add\<close> on a new ring, one list of members
  for each call.\<close>

definition ring_after :: "int \<Rightarrow> Hash option \<Rightarrow> string list list \<Rightarrow> Map" where
  "ring_after r fn bs = foldl Map_Add (consistenthash_New r fn) bs"

text \<open>The ring of the scenarios: three replicas, the decimal hash, the members 6, 4 and 2.\<close>

definition ring_642 :: Map where
  "ring_642 = Map_Add (consistenthash_New 3 (Some atoi_hash)) [''6'', ''4'', ''2'']"

text \<open>The pool scenarios: options with the decimal hash and \<open>r\<close> replicas, and the pool
  \<^verbatim>\<open>NewHTTPPoolOpts\<close> makes for this process, the peer 1, when \<open>r\<close> is the replica count
  in effect.\<close>

definition scenario_opts :: "int \<Rightarrow> HTTPPoolOptions" where
  "scenario_opts r = \<lparr>BasePath = [], Replicas = r, HashFn = Some atoi_hash\<rparr>"

definition scenario_pool :: "int \<Rightarrow> unit HTTPPool" where
  "scenario_pool r =
     \<lparr>Transport = None, self = ''1'',
      opts = \<lparr>BasePath = defaultBasePath, Replicas = r, HashFn = Some atoi_hash\<rparr>,
      peers = consistenthash_New r (Some atoi_hash), httpGetters = Map.empty\<rparr>"

text \<open>A call of the key is registered in the group's map.\<close>

definition registered :: "('v, 'e) Group \<Rightarrow> string \<Rightarrow> bool" where
  "registered g key = (case Group_m g of None \<Rightarrow> False | Some m0 \<Rightarrow> m0 key \<noteq> None)"

text \<open>The scenario of the duplicate-call suppressor: the zero \<^verbatim>\<open>Group\<close>, a work function
  that succeeds and one that fails; both count their runs in the state.\<close>

definition zero_Group :: "(nat, string) Group" where
  "zero_Group = \<lparr>Group_m = None\<rparr>"

definition work_ok :: "nat \<Rightarrow> (nat option \<times> string option) \<times> nat" where
  "work_ok w = ((Some 7, None), w + 1)"

definition work_failing :: "nat \<Rightarrow> (nat option \<times> string option) \<times> nat" where
  "work_failing w = ((None, Some ''boom''), w + 1)"

text \<open>
  What a cache holds: its entries as pairs of key and value, from the front of the list
  (most recently used) to the back. An element without an entry in the store (there is
  none in a well-formed cache) is left out.
\<close>

definition kv_of :: "('k, 'v) entry \<Rightarrow> 'k \<times> 'v" where
  "kv_of e = (entry_key e, entry_value e)"

definition entries :: "('k, 'v, 'w) Cache \<Rightarrow> ('k \<times> 'v) list" where
  "entries c =
     (case ll c of
        None \<Rightarrow> []
      | Some l \<Rightarrow> List.map_filter (\<lambda>a. map_option kv_of (heap c a)) l)"

text \<open>
  The representation invariant of a cache whose list and map are not nil: the elements of
  the list are distinct allocated addresses, the entry of each element is stored and the
  map sends its key to the element, and the map sends every key it holds to an element of
  the list whose entry has that key. The list and the map are nil together.
\<close>

definition wf_list ::
  "addr \<Rightarrow> (addr \<rightharpoonup> ('k, 'v) entry) \<Rightarrow> addr list \<Rightarrow> ('k \<rightharpoonup> addr) \<Rightarrow> bool" where
  "wf_list n h l m =
     (distinct l \<and>
      (\<forall>a\<in>set l. a < n \<and> (\<exists>e. h a = Some e \<and> m (entry_key e) = Some a)) \<and>
      (\<forall>k a. m k = Some a \<longrightarrow> a \<in> set l \<and> (\<exists>e. h a = Some e \<and> entry_key e = k)))"

definition Cache_wf :: "('k, 'v, 'w) Cache \<Rightarrow> bool" where
  "Cache_wf c =
     (case ll c of
        None \<Rightarrow> cache c = None
      | Some l \<Rightarrow>
          (case cache c of None \<Rightarrow> False | Some m \<Rightarrow> wf_list (nextaddr c) (heap c) l m))"

text \<open>The effect of calling the eviction callback, if there is one, for a list of entries in
  turn.\<close>

definition fire :: "('k \<Rightarrow> 'v \<Rightarrow> 'w \<Rightarrow> 'w) option \<Rightarrow> ('k \<times> 'v) list \<Rightarrow> 'w \<Rightarrow> 'w" where
  "fire cb evs w =
     (case cb of None \<Rightarrow> w | Some f \<Rightarrow> foldl (\<lambda>w' kv. f (fst kv) (snd kv) w') w evs)"

text \<open>The last entry of a list of entries, if there is one.\<close>

definition tail_entry :: "'a list \<Rightarrow> 'a list" where
  "tail_entry es = (if es = [] then [] else [last es])"

text \<open>
  What \<^verbatim>\<open>Add\<close> does in terms of the entries, with \<open>M\<close> the value of \<^verbatim>\<open>MaxEntries\<close>: the
  entries afterwards, and the entries it evicts.
\<close>

definition lru_add_entries :: "int \<Rightarrow> ('k \<times> 'v) list \<Rightarrow> 'k \<Rightarrow> 'v \<Rightarrow> ('k \<times> 'v) list" where
  "lru_add_entries M es k v =
     (if k \<in> fst ` set es then (k, v) # filter (\<lambda>x. fst x \<noteq> k) es
      else if M \<noteq> 0 \<and> int (length es) + 1 > M then butlast ((k, v) # es)
      else (k, v) # es)"

definition lru_add_evicted :: "int \<Rightarrow> ('k \<times> 'v) list \<Rightarrow> 'k \<Rightarrow> 'v \<Rightarrow> ('k \<times> 'v) list" where
  "lru_add_evicted M es k v =
     (if k \<in> fst ` set es then []
      else if M \<noteq> 0 \<and> int (length es) + 1 > M then [last ((k, v) # es)]
      else [])"

text \<open>The entries \<^verbatim>\<open>Clear\<close> calls the callback with, when it ranges over the keys in the
  order \<open>ord\<close>.\<close>

definition clear_calls :: "('k \<times> 'v) list \<Rightarrow> 'k list \<Rightarrow> ('k \<times> 'v) list" where
  "clear_calls es ord =
     concat (map (\<lambda>k. case map_of es k of None \<Rightarrow> [] | Some v \<Rightarrow> [(k, v)]) ord)"

text \<open>The entry of an element in the store.\<close>

definition ent :: "(addr \<rightharpoonup> ('k, 'v) entry) \<Rightarrow> addr \<Rightarrow> 'k \<times> 'v" where
  "ent h a = kv_of (the (h a))"

text \<open>The cache scenarios: a callback that records each call in the state (the list of
  the calls so far), and the zero cache with this callback.\<close>

definition record_call :: "'k \<Rightarrow> 'v \<Rightarrow> ('k \<times> 'v) list \<Rightarrow> ('k \<times> 'v) list" where
  "record_call k v w = w @ [(k, v)]"

definition zero_cache :: "(string, nat, (string \<times> nat) list) Cache" where
  "zero_cache = lru_zero 0 (Some record_call) []"

text \<open>A cache that holds more entries than \<^verbatim>\<open>MaxEntries\<close> allows: the state after
  \<^verbatim>\<open>New(0)\<close>, \<^verbatim>\<open>Add("A", 1)\<close>, \<^verbatim>\<open>Add("B", 2)\<close> and the assignments of 1 to
  \<^verbatim>\<open>MaxEntries\<close> and of the recording callback to \<^verbatim>\<open>OnEvicted\<close>.\<close>

definition over_cache :: "(string, nat, (string \<times> nat) list) Cache" where
  "over_cache =
     \<lparr>MaxEntries = 1, OnEvicted = Some record_call, ll = Some [1, 0],
      cache = Some [''A'' \<mapsto> 0, ''B'' \<mapsto> 1],
      heap = [0 \<mapsto> \<lparr>entry_key = ''A'', entry_value = 1\<rparr>,
              1 \<mapsto> \<lparr>entry_key = ''B'', entry_value = 2\<rparr>],
      nextaddr = 2, world = []\<rparr>"

text \<open>A sequence of calls of \<^verbatim>\<open>Add\<close>, one for each pair of key and value; a panic ends
  it.\<close>

fun Cache_Adds :: "('k, 'v, 'w) Cache \<Rightarrow> ('k \<times> 'v) list \<Rightarrow> panic + ('k, 'v, 'w) Cache" where
  "Cache_Adds c [] = Inr c"
| "Cache_Adds c (kv # kvs) =
     (case Cache_Add c (fst kv) (snd kv) of
        Inl p \<Rightarrow> Inl p
      | Inr c' \<Rightarrow> Cache_Adds c' kvs)"

text \<open>
  The recency order of a sequence of adds, without any bound: each added key once, with
  the value added last, the most recently added key first.
\<close>

definition mru :: "('k \<times> 'v) list \<Rightarrow> ('k \<times> 'v) list" where
  "mru kvs = foldl (\<lambda>es kv. kv # filter (\<lambda>x. fst x \<noteq> fst kv) es) [] kvs"

text \<open>The eviction scenario: a cache of capacity 2 with the recording callback.\<close>

definition capacity_two :: "(string, nat, (string \<times> nat) list) Cache" where
  "capacity_two = (lru_New 2 [])\<lparr>OnEvicted := Some record_call\<rparr>"

text \<open>What a test observes of the result of a sequence of operations: the entries of the
  cache and the record of the callback's calls, or the panic.\<close>

definition observe ::
  "panic + ('k, 'v, 'w) Cache \<Rightarrow> panic + (('k \<times> 'v) list \<times> 'w)" where
  "observe r = (case r of Inl p \<Rightarrow> Inl p | Inr c \<Rightarrow> Inr (entries c, world c))"

section \<open>The ring: binary search and the effect of Add\<close>

declare Search_loop.simps [simp del]
declare Itoa_nat.simps [simp del]

lemma Search_loop_least:
  "i \<le> j \<Longrightarrow> j \<le> n \<Longrightarrow> (\<forall>k<i. \<not> f k) \<Longrightarrow> (\<forall>k. j \<le> k \<and> k < n \<longrightarrow> f k) \<Longrightarrow>
   (\<forall>a b. a \<le> b \<and> b < n \<and> f a \<longrightarrow> f b) \<Longrightarrow>
   i \<le> Search_loop i j f \<and> Search_loop i j f \<le> j \<and>
   (\<forall>k<Search_loop i j f. \<not> f k) \<and> (\<forall>k. Search_loop i j f \<le> k \<and> k < n \<longrightarrow> f k)"
proof (induction i j f rule: Search_loop.induct)
  case (1 i j f)
  note mono = "1.prems"(5)
  show ?case
  proof (cases "i < j")
    case False
    then have eq: "Search_loop i j f = i"
      by (simp add: Search_loop.simps [of i j f])
    from False "1.prems"(1) have "i = j" by simp
    with "1.prems"(3,4) show ?thesis
      unfolding eq by blast
  next
    case True
    define h where "h = (i + j) div 2"
    have hb: "i \<le> h" "h < j" using True by (simp_all add: h_def)
    show ?thesis
    proof (cases "f h")
      case True
      have eq: "Search_loop i j f = Search_loop i h f"
        using \<open>i < j\<close> True by (simp add: Search_loop.simps [of i j f] h_def Let_def)
      have up: "\<forall>k. h \<le> k \<and> k < n \<longrightarrow> f k"
        using True mono by blast
      have nn: "\<not> \<not> f h" using True by blast
      have hn: "h \<le> n" using hb "1.prems"(2) by linarith
      have "i \<le> Search_loop i h f \<and> Search_loop i h f \<le> h \<and>
            (\<forall>k<Search_loop i h f. \<not> f k) \<and> (\<forall>k. Search_loop i h f \<le> k \<and> k < n \<longrightarrow> f k)"
        by (rule "1.IH"(2) [OF \<open>i < j\<close> h_def nn hb(1) hn "1.prems"(3) up mono])
      then have a: "i \<le> Search_loop i h f" and b: "Search_loop i h f \<le> h"
        and c: "\<forall>k<Search_loop i h f. \<not> f k"
        and d: "\<forall>k. Search_loop i h f \<le> k \<and> k < n \<longrightarrow> f k"
        by blast+
      from b hb(2) have b': "Search_loop i h f \<le> j" by linarith
      show ?thesis unfolding eq using a b' c d by blast
    next
      case False
      have eq: "Search_loop i j f = Search_loop (h + 1) j f"
        using \<open>i < j\<close> False by (simp add: Search_loop.simps [of i j f] h_def Let_def)
      have lo: "\<forall>k<h + 1. \<not> f k"
      proof (intro allI impI)
        fix k assume "k < h + 1"
        then have "k \<le> h" by simp
        moreover have "h < n" using hb "1.prems"(2) by simp
        ultimately show "\<not> f k" using False mono by blast
      qed
      have hj: "h + 1 \<le> j" using hb(2) by simp
      have "h + 1 \<le> Search_loop (h + 1) j f \<and> Search_loop (h + 1) j f \<le> j \<and>
            (\<forall>k<Search_loop (h + 1) j f. \<not> f k) \<and>
            (\<forall>k. Search_loop (h + 1) j f \<le> k \<and> k < n \<longrightarrow> f k)"
        by (rule "1.IH"(1) [OF \<open>i < j\<close> h_def False hj "1.prems"(2) lo "1.prems"(4) mono])
      then have a: "h + 1 \<le> Search_loop (h + 1) j f" and b: "Search_loop (h + 1) j f \<le> j"
        and c: "\<forall>k<Search_loop (h + 1) j f. \<not> f k"
        and d: "\<forall>k. Search_loop (h + 1) j f \<le> k \<and> k < n \<longrightarrow> f k"
        by blast+
      from a hb(1) have a': "i \<le> Search_loop (h + 1) j f" by linarith
      show ?thesis unfolding eq using a' b c d by blast
    qed
  qed
qed

lemma Add_replica_fields:
  "hash (Add_replica key m i) = hash m"
  "replicas (Add_replica key m i) = replicas m"
  "keys (Add_replica key m i) = keys m @ [uint (hash m (Itoa i @ key))]"
  "hashMap (Add_replica key m i) = (hashMap m)(uint (hash m (Itoa i @ key)) \<mapsto> key)"
  by (simp_all add: Add_replica_def Let_def)

lemma foldl_Add_replica_hash:
  "hash (foldl (Add_replica key) m js) = hash m \<and>
   replicas (foldl (Add_replica key) m js) = replicas m"
  by (induction js arbitrary: m) (simp_all add: Add_replica_fields)

lemma foldl_Add_replica_keys:
  "keys (foldl (Add_replica key) m js) = keys m @ map (\<lambda>i. uint (hash m (Itoa i @ key))) js"
  by (induction js arbitrary: m) (simp_all add: Add_replica_fields)

lemma foldl_Add_replica_dom:
  "dom (hashMap (foldl (Add_replica key) m js)) =
     dom (hashMap m) \<union> set (map (\<lambda>i. uint (hash m (Itoa i @ key))) js)"
  by (induction js arbitrary: m) (simp_all add: Add_replica_fields)

lemma ran_upd_subset: "ran (f(a \<mapsto> b)) \<subseteq> ran f \<union> {b}"
  by (auto simp: ran_def)

lemma foldl_Add_replica_ran:
  "ran (hashMap (foldl (Add_replica key) m js)) \<subseteq> ran (hashMap m) \<union> {key}"
proof (induction js arbitrary: m)
  case Nil
  show ?case by auto
next
  case (Cons j js)
  have "ran (hashMap (foldl (Add_replica key) (Add_replica key m j) js))
          \<subseteq> ran (hashMap (Add_replica key m j)) \<union> {key}"
    by (rule Cons.IH)
  also have "\<dots> \<subseteq> ran (hashMap m) \<union> {key}"
    using ran_upd_subset [of "hashMap m" "uint (hash m (Itoa j @ key))" key]
    by (simp add: Add_replica_fields)
  finally show ?case by simp
qed

lemma Add_key_fields:
  "hash (Add_key m key) = hash m"
  "replicas (Add_key m key) = replicas m"
  "keys (Add_key m key) = keys m @ replica_hashes m key"
  "dom (hashMap (Add_key m key)) = dom (hashMap m) \<union> set (replica_hashes m key)"
  by (simp_all add: Add_key_def replica_hashes_def foldl_Add_replica_hash
      foldl_Add_replica_keys foldl_Add_replica_dom)

lemma Add_key_ran: "ran (hashMap (Add_key m key)) \<subseteq> ran (hashMap m) \<union> {key}"
  unfolding Add_key_def by (rule foldl_Add_replica_ran)

lemma replica_hashes_Add_key: "replica_hashes (Add_key m k) = replica_hashes m"
  by (rule ext) (simp add: replica_hashes_def Add_key_fields)

lemma foldl_Add_key_hash:
  "hash (foldl Add_key m ks) = hash m \<and> replicas (foldl Add_key m ks) = replicas m"
  by (induction ks arbitrary: m) (simp_all add: Add_key_fields)

lemma foldl_Add_key_keys:
  "keys (foldl Add_key m ks) = keys m @ concat (map (replica_hashes m) ks)"
  by (induction ks arbitrary: m)
     (simp_all add: Add_key_fields replica_hashes_Add_key)

lemma foldl_Add_key_dom:
  "dom (hashMap (foldl Add_key m ks)) = dom (hashMap m) \<union> set (concat (map (replica_hashes m) ks))"
  by (induction ks arbitrary: m)
     (simp_all add: Add_key_fields replica_hashes_Add_key Un_assoc)

lemma foldl_Add_key_ran:
  "ran (hashMap (foldl Add_key m ks)) \<subseteq> ran (hashMap m) \<union> set ks"
proof (induction ks arbitrary: m)
  case Nil
  show ?case by auto
next
  case (Cons k ks)
  have "ran (hashMap (foldl Add_key (Add_key m k) ks)) \<subseteq> ran (hashMap (Add_key m k)) \<union> set ks"
    by (rule Cons.IH)
  also have "\<dots> \<subseteq> (ran (hashMap m) \<union> {k}) \<union> set ks"
    using Add_key_ran [of m k] by blast
  finally show ?case by auto
qed

lemma Map_Add_fields:
  "hash (Map_Add m ks) = hash m"
  "replicas (Map_Add m ks) = replicas m"
  "keys (Map_Add m ks) = sort (keys m @ concat (map (replica_hashes m) ks))"
  "dom (hashMap (Map_Add m ks)) = dom (hashMap m) \<union> set (concat (map (replica_hashes m) ks))"
  by (simp_all add: Map_Add_def Let_def Ints_def foldl_Add_key_hash foldl_Add_key_keys
      foldl_Add_key_dom)

lemma Map_Add_ran: "ran (hashMap (Map_Add m ks)) \<subseteq> ran (hashMap m) \<union> set ks"
  using foldl_Add_key_ran [of m ks] by (simp add: Map_Add_def Let_def)

lemma Search_least:
  assumes "sorted xs"
  shows "Search (length xs) (\<lambda>i. h \<le> xs ! i) \<le> length xs \<and>
         (\<forall>j<Search (length xs) (\<lambda>i. h \<le> xs ! i). xs ! j < h) \<and>
         (\<forall>j. Search (length xs) (\<lambda>i. h \<le> xs ! i) \<le> j \<and> j < length xs \<longrightarrow> h \<le> xs ! j)"
proof -
  have mono: "\<forall>a b. a \<le> b \<and> b < length xs \<and> h \<le> xs ! a \<longrightarrow> h \<le> xs ! b"
  proof (intro allI impI)
    fix a b assume ab: "a \<le> b \<and> b < length xs \<and> h \<le> xs ! a"
    then have "xs ! a \<le> xs ! b" using assms by (simp add: sorted_nth_mono)
    with ab show "h \<le> xs ! b" by (blast intro: order_trans)
  qed
  have a1: "(0::nat) \<le> length xs" by simp
  have a2: "length xs \<le> length xs" by simp
  have a3: "\<forall>k<(0::nat). \<not> h \<le> xs ! k" by simp
  have a4: "\<forall>k. length xs \<le> k \<and> k < length xs \<longrightarrow> h \<le> xs ! k" by auto
  from Search_loop_least [OF a1 a2 a3 a4 mono]
  show ?thesis unfolding Search_def by (simp add: not_le)
qed

lemma ring_after_snoc: "ring_after r fn (bs @ [b]) = Map_Add (ring_after r fn bs) b"
  by (simp add: ring_after_def)

lemma ring_after_dom: "set (keys (ring_after r fn bs)) = dom (hashMap (ring_after r fn bs))"
proof (induction bs rule: rev_induct)
  case Nil
  show ?case by (simp add: ring_after_def consistenthash_New_def)
next
  case (snoc b bs)
  then show ?case by (simp add: ring_after_snoc Map_Add_fields)
qed

lemma ring_after_sorted: "sorted (keys (ring_after r fn bs))"
proof (cases bs rule: rev_cases)
  case Nil
  then show ?thesis by (simp add: ring_after_def consistenthash_New_def)
next
  case (snoc bs' b)
  then show ?thesis by (simp add: ring_after_snoc Map_Add_fields)
qed

lemma ring_after_hash:
  "hash (ring_after r fn bs) = (case fn of None \<Rightarrow> ChecksumIEEE | Some f \<Rightarrow> f)"
proof (induction bs rule: rev_induct)
  case Nil
  show ?case by (simp add: ring_after_def consistenthash_New_def)
next
  case (snoc b bs)
  then show ?case by (simp add: ring_after_snoc Map_Add_fields)
qed

lemma ring_after_ran: "ran (hashMap (ring_after r fn bs)) \<subseteq> set (concat bs)"
proof (induction bs rule: rev_induct)
  case Nil
  show ?case by (simp add: ring_after_def consistenthash_New_def)
next
  case (snoc b bs)
  have "ran (hashMap (ring_after r fn (bs @ [b]))) \<subseteq> ran (hashMap (ring_after r fn bs)) \<union> set b"
    unfolding ring_after_snoc by (rule Map_Add_ran)
  with snoc.IH show ?case by auto
qed

section \<open>The ring: the claims\<close>

text \<open>
  C2. On every ring built by \<^verbatim>\<open>New\<close> and any sequence of calls of \<^verbatim>\<open>Add\<close>, with any
  replica count and hash function (nil is the default checksum): \<^verbatim>\<open>Get\<close> returns the
  empty string when the ring is empty; otherwise, with \<open>h\<close> the hash of the key, the binary
  search returns the least index \<open>i\<close> with \<open>h \<le> keys ! i\<close> (every index below \<open>i\<close>
  holds a smaller hash, every index from \<open>i\<close> on a hash that is at least \<open>h\<close>, and
  \<open>i\<close> is the length when there is none), and what \<^verbatim>\<open>Get\<close> returns is the owner the
  map \<^verbatim>\<open>hashMap\<close> binds to the hash at index \<open>i\<close>, or at index 0 when \<open>i\<close> is the
  length; that owner is one of the members added.
\<close>

theorem Map_Get_least_index:
  fixes r :: int and fn :: "Hash option" and bs :: "string list list" and key :: string
  defines "m \<equiv> ring_after r fn bs"
    and "h \<equiv> uint ((case fn of None \<Rightarrow> ChecksumIEEE | Some f \<Rightarrow> f) key)"
  shows "Map_IsEmpty m = (keys m = []) \<and>
         (Map_IsEmpty m \<longrightarrow> Map_Get m key = []) \<and>
         (\<not> Map_IsEmpty m \<longrightarrow>
            (\<exists>i. i = Search (length (keys m)) (\<lambda>j. h \<le> keys m ! j) \<and>
                 i \<le> length (keys m) \<and>
                 (\<forall>j<i. keys m ! j < h) \<and>
                 (i < length (keys m) \<longrightarrow> h \<le> keys m ! i) \<and>
                 (\<forall>j. i \<le> j \<and> j < length (keys m) \<longrightarrow> h \<le> keys m ! j) \<and>
                 hashMap m (keys m ! (if i = length (keys m) then 0 else i)) =
                   Some (Map_Get m key) \<and>
                 Map_Get m key \<in> set (concat bs)))"
proof -
  have s: "sorted (keys m)" unfolding m_def by (rule ring_after_sorted)
  have d: "set (keys m) = dom (hashMap m)" unfolding m_def by (rule ring_after_dom)
  have hh: "uint (hash m key) = h" unfolding m_def h_def by (simp add: ring_after_hash)
  define i where "i = Search (length (keys m)) (\<lambda>j. h \<le> keys m ! j)"
  define idx where "idx = (if i = length (keys m) then 0 else i)"
  from Search_least [OF s, of h]
  have b: "i \<le> length (keys m)" and lo: "\<forall>j<i. keys m ! j < h"
    and up: "\<forall>j. i \<le> j \<and> j < length (keys m) \<longrightarrow> h \<le> keys m ! j"
    unfolding i_def by blast+
  have up': "i < length (keys m) \<longrightarrow> h \<le> keys m ! i"
    using up by blast
  have e: "Map_IsEmpty m \<Longrightarrow> Map_Get m key = []"
    by (simp add: Map_Get_def)
  have ie: "Map_IsEmpty m = (keys m = [])" by (simp add: Map_IsEmpty_def)
  have g: "hashMap m (keys m ! idx) = Some (Map_Get m key) \<and> Map_Get m key \<in> set (concat bs)"
    if ne: "\<not> Map_IsEmpty m"
  proof -
    have nn: "keys m \<noteq> []" using ne ie by simp
    have "idx < length (keys m)" using b nn by (auto simp: idx_def)
    then have "keys m ! idx \<in> dom (hashMap m)" using d nth_mem by blast
    then obtain o' where o': "hashMap m (keys m ! idx) = Some o'" by blast
    have "Map_Get m key = owner m (keys m ! idx)"
      using ne by (simp add: Map_Get_def Let_def hh i_def idx_def)
    also have "\<dots> = o'" using o' by (simp add: owner_def)
    finally have eq: "Map_Get m key = o'" .
    have "o' \<in> ran (hashMap m)" using o' by (auto simp: ran_def)
    then have "o' \<in> set (concat bs)" using ring_after_ran [of r fn bs] unfolding m_def by blast
    with o' eq show ?thesis by simp
  qed
  from b lo up up' g e ie show ?thesis unfolding i_def idx_def by blast
qed

theorem Map_Get_least_index_witness:
  "\<not> Map_IsEmpty (ring_after 3 (Some atoi_hash) [[''6'', ''4'', ''2'']]) \<and>
   (\<exists>i. i = Search (length (keys (ring_after 3 (Some atoi_hash) [[''6'', ''4'', ''2'']])))
            (\<lambda>j. uint (atoi_hash ''27'') \<le> keys (ring_after 3 (Some atoi_hash) [[''6'', ''4'', ''2'']]) ! j) \<and>
        hashMap (ring_after 3 (Some atoi_hash) [[''6'', ''4'', ''2'']])
          (keys (ring_after 3 (Some atoi_hash) [[''6'', ''4'', ''2'']]) !
             (if i = length (keys (ring_after 3 (Some atoi_hash) [[''6'', ''4'', ''2'']])) then 0 else i)) =
          Some (Map_Get (ring_after 3 (Some atoi_hash) [[''6'', ''4'', ''2'']]) ''27'')) \<and>
   Map_Get (ring_after 3 (Some atoi_hash) [[''6'', ''4'', ''2'']]) ''27'' = ''2''"
proof -
  have n: "\<not> Map_IsEmpty (ring_after 3 (Some atoi_hash) [[''6'', ''4'', ''2'']])" by code_simp
  have g: "Map_Get (ring_after 3 (Some atoi_hash) [[''6'', ''4'', ''2'']]) ''27'' = ''2''"
    by code_simp
  note T = Map_Get_least_index [of 3 "Some atoi_hash" "[[''6'', ''4'', ''2'']]" "''27''",
      THEN conjunct2, THEN conjunct2, THEN mp, OF n]
  from T have "\<exists>i. i = Search (length (keys (ring_after 3 (Some atoi_hash) [[''6'', ''4'', ''2'']])))
            (\<lambda>j. uint (atoi_hash ''27'') \<le> keys (ring_after 3 (Some atoi_hash) [[''6'', ''4'', ''2'']]) ! j) \<and>
        hashMap (ring_after 3 (Some atoi_hash) [[''6'', ''4'', ''2'']])
          (keys (ring_after 3 (Some atoi_hash) [[''6'', ''4'', ''2'']]) !
             (if i = length (keys (ring_after 3 (Some atoi_hash) [[''6'', ''4'', ''2'']])) then 0 else i)) =
          Some (Map_Get (ring_after 3 (Some atoi_hash) [[''6'', ''4'', ''2'']]) ''27'')"
    by (simp only: option.case) blast
  with n g show ?thesis by (intro conjI)
qed

text \<open>
  C6. With the decimal hash and three replicas, adding the members 6, 4 and 2 gives the
  hash sequence 2, 4, 6, 12, 14, 16, 22, 24, 26; the keys 2, 11, 23 and 27 go to the members
  2, 2, 4 and 2 (27 wraps around); after the member 8 is added, the key 27 goes to 8.
\<close>

theorem ring_smoke:
  "keys ring_642 = [2, 4, 6, 12, 14, 16, 22, 24, 26] \<and>
   Map_Get ring_642 ''2'' = ''2'' \<and>
   Map_Get ring_642 ''11'' = ''2'' \<and>
   Map_Get ring_642 ''23'' = ''4'' \<and>
   Map_Get ring_642 ''27'' = ''2'' \<and>
   Map_Get (Map_Add ring_642 [''8'']) ''27'' = ''8''"
  by (intro conjI; code_simp)

text \<open>
  C8, as the claim states it, fails: the sequence is not strictly sorted when two replica
  hashes are equal. Adding the member 6 twice to a ring with one replica gives the
  sequence 6, 6.
\<close>

theorem strictly_sorted_counterexample:
  "keys (Map_Add (consistenthash_New 1 (Some atoi_hash)) [''6'', ''6'']) = [6, 6] \<and>
   \<not> sorted_wrt (<) (keys (Map_Add (consistenthash_New 1 (Some atoi_hash)) [''6'', ''6''])) \<and>
   \<not> distinct (keys (Map_Add (consistenthash_New 1 (Some atoi_hash)) [''6'', ''6'']))"
  by (intro conjI; code_simp)

text \<open>
  C8, amended. After every call of \<^verbatim>\<open>Add\<close> the sequence is sorted in increasing order
  (equal hashes may repeat); after any sequence of calls on a new ring the hashes in the
  sequence are exactly the hashes the owner map binds; and a call only adds to the
  sequence: the new sequence holds the old hashes and the replica hashes of the added
  members, each as often as before, and the owner map binds every hash it bound before.
\<close>

theorem Map_Add_sorted_mapped_growing:
  "sorted (keys (Map_Add m ks)) \<and>
   sorted (keys (ring_after r fn bs)) \<and>
   set (keys (ring_after r fn bs)) = dom (hashMap (ring_after r fn bs)) \<and>
   mset (keys (Map_Add m ks)) = mset (keys m) + mset (concat (map (replica_hashes m) ks)) \<and>
   mset (keys m) \<subseteq># mset (keys (Map_Add m ks)) \<and>
   length (keys m) \<le> length (keys (Map_Add m ks)) \<and>
   dom (hashMap m) \<subseteq> dom (hashMap (Map_Add m ks))"
  by (simp add: ring_after_sorted ring_after_dom Map_Add_fields)

section \<open>The peer picker\<close>

lemma Map_Get_in_ran:
  assumes s: "sorted (keys m)" and ne: "keys m \<noteq> []" and d: "set (keys m) \<subseteq> dom (hashMap m)"
  shows "Map_Get m key \<in> ran (hashMap m)"
proof -
  define i where "i = Search (length (keys m)) (\<lambda>j. uint (hash m key) \<le> keys m ! j)"
  define idx where "idx = (if i = length (keys m) then 0 else i)"
  have "i \<le> length (keys m)"
    using Search_least [OF s, of "uint (hash m key)"] unfolding i_def by blast
  then have "idx < length (keys m)" using ne by (auto simp: idx_def)
  then have "keys m ! idx \<in> dom (hashMap m)" using d nth_mem by blast
  then obtain s where hs: "hashMap m (keys m ! idx) = Some s" by blast
  have "Map_Get m key = owner m (keys m ! idx)"
    using ne by (simp add: Map_Get_def Map_IsEmpty_def Let_def i_def idx_def)
  also have "\<dots> = s" using hs by (simp add: owner_def)
  finally show ?thesis using hs by (auto simp: ran_def)
qed

lemma New_fields:
  "keys (consistenthash_New r fn) = []"
  "hashMap (consistenthash_New r fn) = Map.empty"
  "replicas (consistenthash_New r fn) = r"
  by (simp_all add: consistenthash_New_def)

lemma Map_Get_new_ring_member:
  assumes "\<not> Map_IsEmpty (Map_Add (consistenthash_New r fn) ps)"
  shows "Map_Get (Map_Add (consistenthash_New r fn) ps) key \<in> set ps"
proof -
  let ?m = "Map_Add (consistenthash_New r fn) ps"
  have s: "sorted (keys ?m)" by (simp add: Map_Add_fields)
  have ne: "keys ?m \<noteq> []" using assms by (simp add: Map_IsEmpty_def)
  have d: "set (keys ?m) \<subseteq> dom (hashMap ?m)" by (simp add: Map_Add_fields New_fields)
  have "Map_Get ?m key \<in> ran (hashMap ?m)" by (rule Map_Get_in_ran [OF s ne d])
  moreover have "ran (hashMap ?m) \<subseteq> set ps"
    using Map_Add_ran [of "consistenthash_New r fn" ps] by (simp add: New_fields)
  ultimately show ?thesis by blast
qed

lemma replica_hashes_nonpositive: "replicas m \<le> 0 \<Longrightarrow> replica_hashes m key = []"
  by (simp add: replica_hashes_def)

lemma concat_replica_hashes_nonpositive:
  "replicas m \<le> 0 \<Longrightarrow> concat (map (replica_hashes m) ks) = []"
  by (induction ks) (simp_all add: replica_hashes_nonpositive)

lemma Map_Add_nonpositive: "replicas m \<le> 0 \<Longrightarrow> keys (Map_Add m ks) = sort (keys m)"
  by (simp add: Map_Add_fields concat_replica_hashes_nonpositive)

lemma getters_foldl:
  "foldl (\<lambda>g peer. g(peer \<mapsto> F peer)) g0 ps x = (if x \<in> set ps then Some (F x) else g0 x)"
  by (induction ps arbitrary: g0) auto

lemma Set_fields:
  "peers (HTTPPool_Set p ps) = Map_Add (consistenthash_New (Replicas (opts p)) (HashFn (opts p))) ps"
  "self (HTTPPool_Set p ps) = self p"
  "httpGetters (HTTPPool_Set p ps) x =
     (if x \<in> set ps then Some \<lparr>transport = Transport p, baseURL = x @ BasePath (opts p)\<rparr> else None)"
  by (simp_all add: HTTPPool_Set_def getters_foldl)

lemma PickPeer_found_iff:
  "snd (HTTPPool_PickPeer p key) = False \<longleftrightarrow>
     Map_IsEmpty (peers p) \<or> Map_Get (peers p) key = self p"
  by (simp add: HTTPPool_PickPeer_def Let_def)

lemma PickPeer_Set_handle:
  assumes "snd (HTTPPool_PickPeer (HTTPPool_Set p ps) key)"
  shows "\<exists>peer. peer \<in> set ps \<and> peer \<noteq> self p \<and>
           peer = Map_Get (peers (HTTPPool_Set p ps)) key \<and>
           fst (HTTPPool_PickPeer (HTTPPool_Set p ps) key) =
             Some \<lparr>transport = Transport p, baseURL = peer @ BasePath (opts p)\<rparr>"
proof -
  let ?q = "HTTPPool_Set p ps"
  let ?peer = "Map_Get (peers ?q) key"
  from assms have ne: "\<not> Map_IsEmpty (peers ?q)" and o: "?peer \<noteq> self ?q"
    using PickPeer_found_iff [of ?q key] by auto
  have mem: "?peer \<in> set ps"
    using ne Map_Get_new_ring_member unfolding Set_fields(1) by blast
  have "fst (HTTPPool_PickPeer ?q key) = httpGetters ?q ?peer"
    using ne o by (simp add: HTTPPool_PickPeer_def Let_def)
  also have "\<dots> = Some \<lparr>transport = Transport p, baseURL = ?peer @ BasePath (opts p)\<rparr>"
    using mem by (simp only: Set_fields(3) if_True)
  finally show ?thesis using mem o by (auto simp: Set_fields(2))
qed

lemma PickPeer_Set_nonpositive:
  assumes "Replicas (opts p) \<le> 0"
  shows "HTTPPool_PickPeer (HTTPPool_Set p ps) key = (None, False)"
proof -
  have "keys (peers (HTTPPool_Set p ps)) = []"
    using assms by (simp add: Set_fields(1) Map_Add_nonpositive New_fields)
  then show ?thesis by (simp add: HTTPPool_PickPeer_def Map_IsEmpty_def)
qed

lemma NewHTTPPoolOpts_Replicas:
  assumes "NewHTTPPoolOpts made slf opt = Inr (q, made')"
  shows "Replicas (opts q) \<noteq> 0 \<and> replicas (peers q) = Replicas (opts q) \<and>
         Replicas (opts q) =
           (case opt of None \<Rightarrow> defaultReplicas
            | Some x \<Rightarrow> if Replicas x = 0 then defaultReplicas else Replicas x)"
  using assms
  by (auto simp: NewHTTPPoolOpts_def Let_def defaultReplicas_def New_fields
      split: if_splits option.splits)

text \<open>
  C7, as the claim states it, fails for the replica count 0: \<^verbatim>\<open>NewHTTPPoolOpts\<close> replaces
  a replica count of 0 in the options by the default 50, so the ring of the pool is not
  empty after \<^verbatim>\<open>Set\<close>, and \<^verbatim>\<open>PickPeer\<close> returns the getter of peer 2 for the key 2.
\<close>

theorem replicas_zero_counterexample:
  "Replicas (scenario_opts 0) = 0 \<and>
   NewHTTPPoolOpts False ''1'' (Some (scenario_opts 0)) = Inr (scenario_pool 50, True) \<and>
   \<not> Map_IsEmpty (peers (HTTPPool_Set (scenario_pool 50) [''1'', ''2''])) \<and>
   HTTPPool_PickPeer (HTTPPool_Set (scenario_pool 50) [''1'', ''2'']) ''2'' =
     (Some \<lparr>transport = None, baseURL = ''2/_groupcache/''\<rparr>, True)"
proof (intro conjI)
  show "Replicas (scenario_opts 0) = 0" by (simp add: scenario_opts_def)
  show "NewHTTPPoolOpts False ''1'' (Some (scenario_opts 0)) = Inr (scenario_pool 50, True)"
    by (simp add: NewHTTPPoolOpts_def scenario_opts_def scenario_pool_def Let_def
        defaultReplicas_def)
  show "\<not> Map_IsEmpty (peers (HTTPPool_Set (scenario_pool 50) [''1'', ''2'']))"
    by code_simp
  show "HTTPPool_PickPeer (HTTPPool_Set (scenario_pool 50) [''1'', ''2'']) ''2'' =
     (Some \<lparr>transport = None, baseURL = ''2/_groupcache/''\<rparr>, True)"
    by code_simp
qed

text \<open>
  C7, amended. \<^verbatim>\<open>PickPeer\<close> returns found = false (and the nil getter) exactly when the
  ring is empty or the ring's owner of the key is this process; after \<^verbatim>\<open>Set\<close>, when it
  returns found = true, it returns the getter of the owner, a member of the peers set,
  which is not this process. A ring whose replica count is 0 or less stays empty when
  members are added, and a pool whose options hold a replica count of 0 or less returns
  found = false for every key after \<^verbatim>\<open>Set\<close>. The options of a pool made by
  \<^verbatim>\<open>NewHTTPPoolOpts\<close> never hold the replica count 0: a requested 0 becomes the default 50.
\<close>

theorem PickPeer_local_or_handle:
  "(snd (HTTPPool_PickPeer p key) = False \<longleftrightarrow>
      Map_IsEmpty (peers p) \<or> Map_Get (peers p) key = self p) \<and>
   (\<not> snd (HTTPPool_PickPeer p key) \<longrightarrow> fst (HTTPPool_PickPeer p key) = None) \<and>
   (snd (HTTPPool_PickPeer (HTTPPool_Set p ps) key) \<longrightarrow>
      (\<exists>peer. peer \<in> set ps \<and> peer \<noteq> self p \<and>
         peer = Map_Get (peers (HTTPPool_Set p ps)) key \<and>
         fst (HTTPPool_PickPeer (HTTPPool_Set p ps) key) =
           Some \<lparr>transport = Transport p, baseURL = peer @ BasePath (opts p)\<rparr>)) \<and>
   (replicas m \<le> 0 \<and> Map_IsEmpty m \<longrightarrow> Map_IsEmpty (Map_Add m ks)) \<and>
   (Replicas (opts p) \<le> 0 \<longrightarrow> HTTPPool_PickPeer (HTTPPool_Set p ps) key = (None, False)) \<and>
   (NewHTTPPoolOpts made slf opt = Inr (q, made') \<longrightarrow>
      Replicas (opts q) \<noteq> 0 \<and> replicas (peers q) = Replicas (opts q) \<and>
      Replicas (opts q) =
        (case opt of None \<Rightarrow> defaultReplicas
         | Some x \<Rightarrow> if Replicas x = 0 then defaultReplicas else Replicas x))"
proof (intro conjI impI)
  show "snd (HTTPPool_PickPeer p key) = False \<longleftrightarrow>
      Map_IsEmpty (peers p) \<or> Map_Get (peers p) key = self p"
    by (rule PickPeer_found_iff)
  show "fst (HTTPPool_PickPeer p key) = None" if "\<not> snd (HTTPPool_PickPeer p key)"
    using that by (simp add: HTTPPool_PickPeer_def Let_def split: if_splits)
  show "\<exists>peer. peer \<in> set ps \<and> peer \<noteq> self p \<and>
         peer = Map_Get (peers (HTTPPool_Set p ps)) key \<and>
         fst (HTTPPool_PickPeer (HTTPPool_Set p ps) key) =
           Some \<lparr>transport = Transport p, baseURL = peer @ BasePath (opts p)\<rparr>"
    if "snd (HTTPPool_PickPeer (HTTPPool_Set p ps) key)"
    using that by (rule PickPeer_Set_handle)
  show "Map_IsEmpty (Map_Add m ks)" if "replicas m \<le> 0 \<and> Map_IsEmpty m"
    using that by (simp add: Map_IsEmpty_def Map_Add_nonpositive)
  show "HTTPPool_PickPeer (HTTPPool_Set p ps) key = (None, False)" if "Replicas (opts p) \<le> 0"
    using that by (rule PickPeer_Set_nonpositive)
  assume n: "NewHTTPPoolOpts made slf opt = Inr (q, made')"
  from NewHTTPPoolOpts_Replicas [OF n]
  show "Replicas (opts q) \<noteq> 0" and "replicas (peers q) = Replicas (opts q)"
    and "Replicas (opts q) =
        (case opt of None \<Rightarrow> defaultReplicas
         | Some x \<Rightarrow> if Replicas x = 0 then defaultReplicas else Replicas x)"
    by blast+
qed

theorem PickPeer_local_or_handle_witness:
  "snd (HTTPPool_PickPeer (HTTPPool_Set (scenario_pool 50) [''1'', ''2'']) ''2'') \<and>
   (\<exists>peer. peer \<in> set [''1'', ''2''] \<and> peer \<noteq> self (scenario_pool 50) \<and>
      fst (HTTPPool_PickPeer (HTTPPool_Set (scenario_pool 50) [''1'', ''2'']) ''2'') =
        Some \<lparr>transport = Transport (scenario_pool 50),
              baseURL = peer @ BasePath (opts (scenario_pool 50))\<rparr>) \<and>
   Replicas (opts (scenario_pool (- 1))) \<le> 0 \<and>
   HTTPPool_PickPeer (HTTPPool_Set (scenario_pool (- 1)) [''1'', ''2'']) ''2'' = (None, False)"
proof -
  have a: "snd (HTTPPool_PickPeer (HTTPPool_Set (scenario_pool 50) [''1'', ''2'']) ''2'')"
    by code_simp
  have b: "Replicas (opts (scenario_pool (- 1))) \<le> 0"
    by (simp add: scenario_pool_def)
  from PickPeer_local_or_handle [of "scenario_pool 50" "''2''" "[''1'', ''2'']"] a
  have c: "\<exists>peer. peer \<in> set [''1'', ''2''] \<and> peer \<noteq> self (scenario_pool 50) \<and>
      fst (HTTPPool_PickPeer (HTTPPool_Set (scenario_pool 50) [''1'', ''2'']) ''2'') =
        Some \<lparr>transport = Transport (scenario_pool 50),
              baseURL = peer @ BasePath (opts (scenario_pool 50))\<rparr>"
    by blast
  from PickPeer_local_or_handle [of "scenario_pool (- 1)" "''2''" "[''1'', ''2'']"] b
  have d: "HTTPPool_PickPeer (HTTPPool_Set (scenario_pool (- 1)) [''1'', ''2'']) ''2'' = (None, False)"
    by blast
  from a b c d show ?thesis by blast
qed

section \<open>The duplicate-call suppressor\<close>

lemma Do_unregistered:
  assumes "\<not> registered g key"
  shows "Group_Do g key fn w =
           (Some (fst (fn w)),
            g\<lparr>Group_m := Some ((case Group_m g of None \<Rightarrow> Map.empty | Some x \<Rightarrow> x)(key := None))\<rparr>,
            snd (fn w))"
  using assms
  by (auto simp: Group_Do_def registered_def Let_def split: option.splits prod.splits)

lemma Do_unregisters: "\<not> registered g key \<Longrightarrow> \<not> registered (fst (snd (Group_Do g key fn w))) key"
  by (simp add: Do_unregistered) (simp add: registered_def)

text \<open>
  C4. When no call of the key is registered (no other call of the key is in flight),
  \<^verbatim>\<open>Do(key, fn)\<close> returns: it runs \<open>fn\<close> once and returns the value and error of \<open>fn\<close>
  as they are, whatever they are, and afterwards no call of the key is registered; so the
  next \<^verbatim>\<open>Do(key, fn')\<close> runs \<open>fn'\<close> on the state \<open>fn\<close> left and returns the outcome of
  \<open>fn'\<close>, not a result kept from the first call.
\<close>

theorem Do_outcome_verbatim_record_removed:
  assumes "\<not> registered g key"
  shows "fst (Group_Do g key fn w) = Some (fst (fn w)) \<and>
         snd (snd (Group_Do g key fn w)) = snd (fn w) \<and>
         \<not> registered (fst (snd (Group_Do g key fn w))) key \<and>
         fst (Group_Do (fst (snd (Group_Do g key fn w))) key fn' (snd (fn w))) =
           Some (fst (fn' (snd (fn w)))) \<and>
         snd (snd (Group_Do (fst (snd (Group_Do g key fn w))) key fn' (snd (fn w)))) =
           snd (fn' (snd (fn w)))"
proof -
  define g' where "g' = fst (snd (Group_Do g key fn w))"
  have u: "\<not> registered g' key"
    unfolding g'_def using assms by (rule Do_unregisters)
  have first: "fst (Group_Do g key fn w) = Some (fst (fn w))"
    and world: "snd (snd (Group_Do g key fn w)) = snd (fn w)"
    by (simp_all add: Do_unregistered [OF assms])
  have second: "fst (Group_Do g' key fn' (snd (fn w))) = Some (fst (fn' (snd (fn w))))"
    and world': "snd (snd (Group_Do g' key fn' (snd (fn w)))) = snd (fn' (snd (fn w)))"
    by (simp_all add: Do_unregistered [OF u])
  from u first world second world' show ?thesis
    unfolding g'_def by blast
qed

theorem Do_outcome_verbatim_record_removed_witness:
  "\<not> registered zero_Group ''k'' \<and>
   fst (Group_Do zero_Group ''k'' work_failing 0) = Some (None, Some ''boom'') \<and>
   snd (snd (Group_Do zero_Group ''k'' work_failing 0)) = 1 \<and>
   \<not> registered (fst (snd (Group_Do zero_Group ''k'' work_failing 0))) ''k'' \<and>
   fst (Group_Do (fst (snd (Group_Do zero_Group ''k'' work_failing 0))) ''k'' work_ok 1) =
     Some (Some 7, None)"
proof -
  have a: "\<not> registered zero_Group ''k''" by (simp add: registered_def zero_Group_def)
  from Do_outcome_verbatim_record_removed [OF a, of work_failing 0 work_ok] a
  show ?thesis by (simp add: work_failing_def work_ok_def)
qed

section \<open>The cache: the representation invariant and the operations in terms of the entries\<close>

lemma wf_nil: "ll c = None \<Longrightarrow> cache c = None \<Longrightarrow> Cache_wf c"
  by (simp add: Cache_wf_def)

lemma wf_Some:
  "ll c = Some l \<Longrightarrow> cache c = Some m \<Longrightarrow> Cache_wf c = wf_list (nextaddr c) (heap c) l m"
  by (simp add: Cache_wf_def)

lemma wf_cases:
  assumes "Cache_wf c"
  obtains (nil) "ll c = None" "cache c = None"
  | (init) l m where "ll c = Some l" "cache c = Some m" "wf_list (nextaddr c) (heap c) l m"
  using assms by (auto simp: Cache_wf_def split: option.splits)

lemma wf_list_heap:
  "wf_list n h l m \<Longrightarrow> a \<in> set l \<Longrightarrow> \<exists>e. h a = Some e \<and> m (entry_key e) = Some a"
  unfolding wf_list_def by blast

lemma wf_list_map:
  "wf_list n h l m \<Longrightarrow> m k = Some a \<Longrightarrow> a \<in> set l \<and> (\<exists>e. h a = Some e \<and> entry_key e = k)"
  unfolding wf_list_def by blast

lemma wf_list_distinct: "wf_list n h l m \<Longrightarrow> distinct l"
  by (simp add: wf_list_def)

lemma wf_list_bound: "wf_list n h l m \<Longrightarrow> a \<in> set l \<Longrightarrow> a < n"
  unfolding wf_list_def by blast

lemma wf_list_fresh: "wf_list n h l m \<Longrightarrow> n \<notin> set l"
  using wf_list_bound by blast

lemma wf_listI:
  assumes "distinct l"
    and "\<And>a. a \<in> set l \<Longrightarrow> a < n"
    and "\<And>a. a \<in> set l \<Longrightarrow> \<exists>e. h a = Some e \<and> m (entry_key e) = Some a"
    and "\<And>k a. m k = Some a \<Longrightarrow> a \<in> set l \<and> (\<exists>e. h a = Some e \<and> entry_key e = k)"
  shows "wf_list n h l m"
  unfolding wf_list_def using assms by blast

lemma map_filter_all_Some:
  "(\<forall>a\<in>set l. f a \<noteq> None) \<Longrightarrow> List.map_filter f l = map (\<lambda>a. the (f a)) l"
  by (induction l) (auto simp: List.map_filter_simps)

lemma entries_map:
  assumes "ll c = Some l" "wf_list n (heap c) l m"
  shows "entries c = map (ent (heap c)) l"
proof -
  have "\<forall>a\<in>set l. map_option kv_of (heap c a) \<noteq> None"
    using wf_list_heap [OF assms(2)] by fastforce
  then have "List.map_filter (\<lambda>a. map_option kv_of (heap c a)) l =
             map (\<lambda>a. the (map_option kv_of (heap c a))) l"
    by (rule map_filter_all_Some)
  also have "\<dots> = map (ent (heap c)) l"
  proof (rule map_cong [OF refl])
    fix a assume "a \<in> set l"
    then obtain e where "heap c a = Some e" using wf_list_heap [OF assms(2)] by blast
    then show "the (map_option kv_of (heap c a)) = ent (heap c) a" by (simp add: ent_def)
  qed
  finally show ?thesis using assms(1) by (simp add: entries_def)
qed

lemma ent_key:
  assumes "wf_list n h l m" "a \<in> set l"
  shows "m (fst (ent h a)) = Some a"
proof -
  obtain e where "h a = Some e" "m (entry_key e) = Some a"
    using wf_list_heap [OF assms] by blast
  then show ?thesis by (simp add: ent_def kv_of_def)
qed

lemma ent_key_inj:
  assumes "wf_list n h l m" "a \<in> set l" "b \<in> set l" "fst (ent h a) = fst (ent h b)"
  shows "a = b"
proof -
  have "Some a = m (fst (ent h a))" using ent_key [OF assms(1,2)] by simp
  also have "\<dots> = m (fst (ent h b))" by (simp only: assms(4))
  also have "\<dots> = Some b" by (rule ent_key [OF assms(1,3)])
  finally show ?thesis by simp
qed

lemma map_ent_key:
  assumes "wf_list n h l m" "m k = Some a"
  shows "a \<in> set l \<and> fst (ent h a) = k"
proof -
  obtain e where "a \<in> set l" "h a = Some e" "entry_key e = k"
    using wf_list_map [OF assms] by blast
  then show ?thesis by (simp add: ent_def kv_of_def)
qed

lemma keys_distinct:
  assumes "wf_list n h l m"
  shows "distinct (map fst (map (ent h) l))"
proof -
  have "inj_on (\<lambda>a. fst (ent h a)) (set l)"
    by (rule inj_onI) (rule ent_key_inj [OF assms])
  with wf_list_distinct [OF assms] show ?thesis by (simp add: distinct_map comp_def)
qed

lemma map_None_iff:
  assumes "wf_list n h l m"
  shows "m k = None \<longleftrightarrow> k \<notin> fst ` set (map (ent h) l)"
proof
  assume "m k = None"
  show "k \<notin> fst ` set (map (ent h) l)"
  proof
    assume "k \<in> fst ` set (map (ent h) l)"
    then obtain a where "a \<in> set l" "k = fst (ent h a)" by auto
    with ent_key [OF assms] \<open>m k = None\<close> show False by simp
  qed
next
  assume n: "k \<notin> fst ` set (map (ent h) l)"
  show "m k = None"
  proof (rule ccontr)
    assume "m k \<noteq> None"
    then obtain a where "m k = Some a" by blast
    from map_ent_key [OF assms this] n show False by force
  qed
qed

subsection \<open>Removing an element\<close>

lemma wf_list_remove:
  assumes w: "wf_list n h l m" and e: "e \<in> set l"
  shows "wf_list n h (remove1 e l) (m(fst (ent h e) := None))"
proof (rule wf_listI)
  show "distinct (remove1 e l)" using wf_list_distinct [OF w] by simp
next
  fix a assume "a \<in> set (remove1 e l)"
  then show "a < n" using wf_list_bound [OF w] notin_set_remove1 by fast
next
  fix a assume a: "a \<in> set (remove1 e l)"
  then have al: "a \<in> set l" and ne: "a \<noteq> e"
    using wf_list_distinct [OF w] by auto
  obtain x where x: "h a = Some x" "m (entry_key x) = Some a"
    using wf_list_heap [OF w al] by blast
  have "fst (ent h a) \<noteq> fst (ent h e)"
    using ent_key_inj [OF w al e] ne by blast
  then have "entry_key x \<noteq> fst (ent h e)" using x(1) by (simp add: ent_def kv_of_def)
  with x show "\<exists>x. h a = Some x \<and> (m(fst (ent h e) := None)) (entry_key x) = Some a"
    by simp
next
  fix k a assume "(m(fst (ent h e) := None)) k = Some a"
  then have k: "k \<noteq> fst (ent h e)" and mk: "m k = Some a"
    by (auto split: if_splits)
  from map_ent_key [OF w mk] have al: "a \<in> set l" and fk: "fst (ent h a) = k" by blast+
  have "a \<noteq> e" using fk k by blast
  then have "a \<in> set (remove1 e l)" using al by simp
  with wf_list_map [OF w mk] show "a \<in> set (remove1 e l) \<and> (\<exists>x. h a = Some x \<and> entry_key x = k)"
    by blast
qed

lemma map_ent_remove:
  assumes w: "wf_list n h l m" and e: "e \<in> set l"
  shows "map (ent h) (remove1 e l) = filter (\<lambda>x. fst x \<noteq> fst (ent h e)) (map (ent h) l)"
proof -
  have "remove1 e l = filter (\<lambda>a. a \<noteq> e) l"
    using wf_list_distinct [OF w] by (simp add: distinct_remove1_removeAll removeAll_filter_not_eq) metis
  also have "\<dots> = filter (\<lambda>a. fst (ent h a) \<noteq> fst (ent h e)) l"
  proof (rule filter_cong [OF refl])
    fix a assume "a \<in> set l"
    then show "(a \<noteq> e) = (fst (ent h a) \<noteq> fst (ent h e))"
      using ent_key_inj [OF w _ e] by blast
  qed
  finally show ?thesis by (simp add: filter_map comp_def)
qed

lemma remove1_last: "distinct l \<Longrightarrow> l \<noteq> [] \<Longrightarrow> remove1 (last l) l = butlast l"
  by (induction l) auto


subsection \<open>Pushing, reordering and updating elements\<close>

lemma wf_list_push:
  assumes w: "wf_list n h l m" and mk: "m k = None"
  shows "wf_list (Suc n) (h(n \<mapsto> \<lparr>entry_key = k, entry_value = v\<rparr>)) (n # l) (m(k \<mapsto> n))"
proof (rule wf_listI)
  show "distinct (n # l)" using wf_list_distinct [OF w] wf_list_fresh [OF w] by simp
next
  fix a assume "a \<in> set (n # l)"
  then show "a < Suc n" using wf_list_bound [OF w] by (auto simp: less_Suc_eq)
next
  fix a assume a: "a \<in> set (n # l)"
  show "\<exists>e. (h(n \<mapsto> \<lparr>entry_key = k, entry_value = v\<rparr>)) a = Some e \<and>
            (m(k \<mapsto> n)) (entry_key e) = Some a"
  proof (cases "a = n")
    case True
    then show ?thesis by simp
  next
    case False
    with a have al: "a \<in> set l" by simp
    obtain e where e: "h a = Some e" "m (entry_key e) = Some a"
      using wf_list_heap [OF w al] by blast
    have "entry_key e \<noteq> k" using e(2) mk by auto
    with e False show ?thesis by simp
  qed
next
  fix k' a assume m': "(m(k \<mapsto> n)) k' = Some a"
  show "a \<in> set (n # l) \<and>
        (\<exists>e. (h(n \<mapsto> \<lparr>entry_key = k, entry_value = v\<rparr>)) a = Some e \<and> entry_key e = k')"
  proof (cases "k' = k")
    case True
    with m' have "a = n" by simp
    with True show ?thesis by simp
  next
    case False
    with m' have mk': "m k' = Some a" by simp
    from wf_list_map [OF w mk'] obtain e where al: "a \<in> set l" and e: "h a = Some e" "entry_key e = k'"
      by blast
    have "a \<noteq> n" using al wf_list_fresh [OF w] by blast
    with al e show ?thesis by simp
  qed
qed

lemma map_ent_fresh: "a \<notin> set l \<Longrightarrow> map (ent (h(a \<mapsto> x))) l = map (ent h) l"
  by (induction l) (auto simp: ent_def)

lemma ent_upd_same: "ent (h(a \<mapsto> x)) a = kv_of x"
  by (simp add: ent_def)

lemma wf_list_perm:
  assumes w: "wf_list n h l m" and d: "distinct l'" and s: "set l' = set l"
  shows "wf_list n h l' m"
proof (rule wf_listI)
  show "distinct l'" by (rule d)
next
  fix a assume "a \<in> set l'"
  then show "a < n" using wf_list_bound [OF w] s by blast
next
  fix a assume "a \<in> set l'"
  then show "\<exists>e. h a = Some e \<and> m (entry_key e) = Some a" using wf_list_heap [OF w] s by blast
next
  fix k a assume "m k = Some a"
  then show "a \<in> set l' \<and> (\<exists>e. h a = Some e \<and> entry_key e = k)"
    using wf_list_map [OF w] s by blast
qed

lemma wf_list_value:
  assumes w: "wf_list n h l m" and ha: "h a = Some en"
  shows "wf_list n (h(a \<mapsto> en\<lparr>entry_value := v\<rparr>)) l m"
proof (rule wf_listI)
  show "distinct l" by (rule wf_list_distinct [OF w])
next
  fix b assume "b \<in> set l"
  then show "b < n" by (rule wf_list_bound [OF w])
next
  fix b assume bl: "b \<in> set l"
  obtain e where e: "h b = Some e" "m (entry_key e) = Some b"
    using wf_list_heap [OF w bl] by blast
  show "\<exists>e. (h(a \<mapsto> en\<lparr>entry_value := v\<rparr>)) b = Some e \<and> m (entry_key e) = Some b"
  proof (cases "b = a")
    case True
    with e ha have "e = en" by simp
    with e True show ?thesis by simp
  next
    case False
    with e show ?thesis by simp
  qed
next
  fix k b assume mk: "m k = Some b"
  from wf_list_map [OF w mk] obtain e where bl: "b \<in> set l" and e: "h b = Some e" "entry_key e = k"
    by blast
  show "b \<in> set l \<and> (\<exists>e. (h(a \<mapsto> en\<lparr>entry_value := v\<rparr>)) b = Some e \<and> entry_key e = k)"
  proof (cases "b = a")
    case True
    with e ha have "e = en" by simp
    with e True bl show ?thesis by simp
  next
    case False
    with e bl show ?thesis by simp
  qed
qed

lemma move_to_front_set:
  "e \<in> set l \<Longrightarrow> distinct l \<Longrightarrow>
   distinct (list_MoveToFront l e) \<and> set (list_MoveToFront l e) = set l \<and>
   list_MoveToFront l e = e # remove1 e l"
  by (auto simp: list_MoveToFront_def)

lemma map_ent_touch:
  assumes w: "wf_list n h l m" and mk: "m k = Some ee" and hee: "h ee = Some en"
  shows "map (ent (h(ee \<mapsto> en\<lparr>entry_value := v\<rparr>))) (ee # remove1 ee l) =
         (k, v) # filter (\<lambda>x. fst x \<noteq> k) (map (ent h) l)"
proof -
  from map_ent_key [OF w mk] have el: "ee \<in> set l" and fk: "fst (ent h ee) = k" by blast+
  have key: "entry_key en = k" using fk hee by (simp add: ent_def kv_of_def)
  have notin: "ee \<notin> set (remove1 ee l)" using wf_list_distinct [OF w] by simp
  have "map (ent (h(ee \<mapsto> en\<lparr>entry_value := v\<rparr>))) (remove1 ee l) = map (ent h) (remove1 ee l)"
    by (rule map_ent_fresh [OF notin])
  also have "\<dots> = filter (\<lambda>x. fst x \<noteq> k) (map (ent h) l)"
    using map_ent_remove [OF w el] fk by simp
  finally show ?thesis by (simp add: ent_upd_same kv_of_def key)
qed

lemma map_of_ent:
  assumes w: "wf_list n h l m"
  shows "map_of (map (ent h) l) k = map_option (\<lambda>a. snd (ent h a)) (m k)"
proof (cases "m k")
  case None
  then have "k \<notin> fst ` set (map (ent h) l)" using map_None_iff [OF w] by blast
  then have "map_of (map (ent h) l) k = None" by (simp add: map_of_eq_None_iff)
  with None show ?thesis by simp
next
  case (Some a)
  from map_ent_key [OF w Some] have al: "a \<in> set l" and fk: "fst (ent h a) = k" by blast+
  have "(k, snd (ent h a)) \<in> set (map (ent h) l)"
    using al fk by (metis image_eqI list.set_map prod.collapse)
  then have "map_of (map (ent h) l) k = Some (snd (ent h a))"
    using keys_distinct [OF w] by (simp add: map_of_eq_Some_iff)
  with Some show ?thesis by simp
qed


subsection \<open>The operations on a well-formed cache\<close>

lemma removeElement_ok:
  assumes l: "ll c = Some l" and m: "cache c = Some m"
    and w: "wf_list (nextaddr c) (heap c) l m" and e: "e \<in> set l"
  shows "\<exists>c'. Cache_removeElement c e = Inr c' \<and> Cache_wf c' \<and> cache c' \<noteq> None \<and>
           entries c' = filter (\<lambda>x. fst x \<noteq> fst (ent (heap c) e)) (entries c) \<and>
           world c' = fire (OnEvicted c) [ent (heap c) e] (world c) \<and>
           MaxEntries c' = MaxEntries c \<and> OnEvicted c' = OnEvicted c"
proof -
  obtain en where en: "heap c e = Some en" using wf_list_heap [OF w e] by blast
  have ee: "ent (heap c) e = (entry_key en, entry_value en)"
    using en by (simp add: ent_def kv_of_def)
  define c1 where
    "c1 = c\<lparr>ll := Some (remove1 e l), cache := Some (m(entry_key en := None))\<rparr>"
  define c' where
    "c' = (case OnEvicted c of None \<Rightarrow> c1
           | Some f \<Rightarrow> c1\<lparr>world := f (entry_key en) (entry_value en) (world c)\<rparr>)"
  have r: "Cache_removeElement c e = Inr c'"
    by (simp add: Cache_removeElement_def l m en list_Remove_def Let_def c1_def c'_def
        split: option.splits)
  have f: "ll c' = Some (remove1 e l)" "cache c' = Some (m(entry_key en := None))"
    "heap c' = heap c" "nextaddr c' = nextaddr c" "MaxEntries c' = MaxEntries c"
    "OnEvicted c' = OnEvicted c"
    by (simp_all add: c'_def c1_def split: option.splits)
  have wl: "wf_list (nextaddr c') (heap c') (remove1 e l) (m(entry_key en := None))"
    using wf_list_remove [OF w e] by (simp add: f ee)
  have wf': "Cache_wf c'" using wl by (simp add: wf_Some [OF f(1,2)])
  have "entries c' = map (ent (heap c')) (remove1 e l)"
    by (rule entries_map [OF f(1) wl])
  also have "\<dots> = filter (\<lambda>x. fst x \<noteq> fst (ent (heap c) e)) (map (ent (heap c)) l)"
    using map_ent_remove [OF w e] by (simp add: f)
  also have "map (ent (heap c)) l = entries c"
    by (rule entries_map [OF l w, symmetric])
  finally have en': "entries c' = filter (\<lambda>x. fst x \<noteq> fst (ent (heap c) e)) (entries c)" .
  have wo: "world c' = fire (OnEvicted c) [ent (heap c) e] (world c)"
    by (simp add: c'_def c1_def fire_def ee split: option.splits)
  from r wf' en' wo f show ?thesis by simp
qed

lemma Len_ok: "Cache_wf c \<Longrightarrow> Cache_Len c = Inr (int (length (entries c)))"
proof (erule wf_cases)
  assume "ll c = None" "cache c = None"
  then show ?thesis by (simp add: Cache_Len_def entries_def)
next
  fix l m assume a: "ll c = Some l" "cache c = Some m" "wf_list (nextaddr c) (heap c) l m"
  then show ?thesis by (simp add: Cache_Len_def entries_map [OF a(1,3)])
qed

lemma RemoveOldest_ok:
  assumes "Cache_wf c"
  shows "\<exists>c'. Cache_RemoveOldest c = Inr c' \<and> Cache_wf c' \<and> (cache c' = None) = (cache c = None) \<and>
           entries c' = butlast (entries c) \<and>
           world c' = fire (OnEvicted c) (tail_entry (entries c)) (world c) \<and>
           MaxEntries c' = MaxEntries c \<and> OnEvicted c' = OnEvicted c"
  using assms
proof (cases rule: wf_cases)
  case nil
  then show ?thesis using assms
    by (simp add: Cache_RemoveOldest_def entries_def fire_def tail_entry_def split: option.splits)
next
  case (init l m)
  have es: "entries c = map (ent (heap c)) l" by (rule entries_map [OF init(1,3)])
  show ?thesis
  proof (cases "l = []")
    case True
    then show ?thesis using assms init es
      by (simp add: Cache_RemoveOldest_def list_Back_def fire_def tail_entry_def split: option.splits)
  next
    case False
    then have e: "last l \<in> set l" by simp
    have r: "Cache_RemoveOldest c = Cache_removeElement c (last l)"
      using False by (simp add: Cache_RemoveOldest_def init list_Back_def)
    obtain c' where c': "Cache_removeElement c (last l) = Inr c'" "Cache_wf c'" "cache c' \<noteq> None"
      "entries c' = filter (\<lambda>x. fst x \<noteq> fst (ent (heap c) (last l))) (entries c)"
      "world c' = fire (OnEvicted c) [ent (heap c) (last l)] (world c)"
      "MaxEntries c' = MaxEntries c" "OnEvicted c' = OnEvicted c"
      using removeElement_ok [OF init e] by blast
    have "filter (\<lambda>x. fst x \<noteq> fst (ent (heap c) (last l))) (entries c) =
          map (ent (heap c)) (remove1 (last l) l)"
      using map_ent_remove [OF init(3) e] es by simp
    also have "\<dots> = butlast (entries c)"
      using remove1_last [OF wf_list_distinct [OF init(3)] False] es by (simp add: map_butlast)
    finally have b: "entries c' = butlast (entries c)" using c'(4) by simp
    have la: "last (entries c) = ent (heap c) (last l)"
      using False es by (simp add: last_map)
    have ne: "entries c \<noteq> []" using False es by simp
    have te: "tail_entry (entries c) = [ent (heap c) (last l)]"
      using la ne by (simp add: tail_entry_def)
    from r c' b te init(2) show ?thesis by simp
  qed
qed

lemma Remove_ok:
  assumes "Cache_wf c"
  shows "\<exists>c'. Cache_Remove c k = Inr c' \<and> Cache_wf c' \<and> (cache c' = None) = (cache c = None) \<and>
           entries c' = filter (\<lambda>x. fst x \<noteq> k) (entries c) \<and>
           world c' = fire (OnEvicted c)
              (case map_of (entries c) k of None \<Rightarrow> [] | Some v \<Rightarrow> [(k, v)]) (world c) \<and>
           MaxEntries c' = MaxEntries c \<and> OnEvicted c' = OnEvicted c"
  using assms
proof (cases rule: wf_cases)
  case nil
  then show ?thesis using assms
    by (simp add: Cache_Remove_def entries_def fire_def split: option.splits)
next
  case (init l m)
  have es: "entries c = map (ent (heap c)) l" by (rule entries_map [OF init(1,3)])
  note mo = map_of_ent [OF init(3), of k]
  show ?thesis
  proof (cases "m k")
    case None
    then have "k \<notin> fst ` set (entries c)" using map_None_iff [OF init(3)] es by simp
    then have "filter (\<lambda>x. fst x \<noteq> k) (entries c) = entries c"
      by (auto simp: filter_id_conv)
    moreover have "map_of (entries c) k = None" using mo None es by simp
    ultimately show ?thesis using assms None init
      by (simp add: Cache_Remove_def fire_def split: option.splits)
  next
    case (Some e)
    from map_ent_key [OF init(3) Some] have el: "e \<in> set l" and fk: "fst (ent (heap c) e) = k"
      by blast+
    have r: "Cache_Remove c k = Cache_removeElement c e"
      by (simp add: Cache_Remove_def init Some)
    have mv: "map_of (entries c) k = Some (snd (ent (heap c) e))" using mo Some es by simp
    have pe: "(k, snd (ent (heap c) e)) = ent (heap c) e" using fk by (metis prod.collapse)
    from removeElement_ok [OF init el] r fk mv pe init(2) show ?thesis by auto
  qed
qed


lemma fire_Nil: "fire cb [] w = w"
  by (simp add: fire_def split: option.splits)

lemma wf_list_empty: "wf_list n h [] Map.empty"
  by (simp add: wf_list_def)

lemma Add_init_ok:
  assumes l: "ll c = Some l" and m: "cache c = Some m"
    and w: "wf_list (nextaddr c) (heap c) l m"
  shows "\<exists>c'. Cache_Add c k v = Inr c' \<and> Cache_wf c' \<and> cache c' \<noteq> None \<and>
           entries c' = lru_add_entries (MaxEntries c) (entries c) k v \<and>
           world c' = fire (OnEvicted c) (lru_add_evicted (MaxEntries c) (entries c) k v) (world c) \<and>
           MaxEntries c' = MaxEntries c \<and> OnEvicted c' = OnEvicted c"
proof -
  have es: "entries c = map (ent (heap c)) l" by (rule entries_map [OF l w])
  show ?thesis
  proof (cases "m k")
    case (Some ee)
    from map_ent_key [OF w Some] have el: "ee \<in> set l" by blast
    obtain en where en: "heap c ee = Some en" using wf_list_heap [OF w el] by blast
    have present: "k \<in> fst ` set (entries c)"
      using map_None_iff [OF w, of k] Some es by simp
    define c' where
      "c' = c\<lparr>ll := Some (ee # remove1 ee l), heap := (heap c)(ee \<mapsto> en\<lparr>entry_value := v\<rparr>)\<rparr>"
    have mf: "list_MoveToFront l ee = ee # remove1 ee l"
      using el by (simp add: list_MoveToFront_def)
    have r: "Cache_Add c k v = Inr c'"
      by (simp add: Cache_Add_def l m Some en mf c'_def Let_def)
    have f: "ll c' = Some (ee # remove1 ee l)" "cache c' = Some m"
      "heap c' = (heap c)(ee \<mapsto> en\<lparr>entry_value := v\<rparr>)" "nextaddr c' = nextaddr c"
      "MaxEntries c' = MaxEntries c" "OnEvicted c' = OnEvicted c" "world c' = world c"
      by (simp_all add: c'_def m)
    have d: "distinct (ee # remove1 ee l)" "set (ee # remove1 ee l) = set l"
      using el wf_list_distinct [OF w] by auto
    have wl: "wf_list (nextaddr c') (heap c') (ee # remove1 ee l) m"
      unfolding f by (rule wf_list_perm [OF wf_list_value [OF w en] d])
    have wf': "Cache_wf c'" using wl by (simp add: wf_Some [OF f(1,2)])
    have "entries c' = map (ent (heap c')) (ee # remove1 ee l)"
      by (rule entries_map [OF f(1) wl])
    also have "\<dots> = (k, v) # filter (\<lambda>x. fst x \<noteq> k) (map (ent (heap c)) l)"
      unfolding f by (rule map_ent_touch [OF w Some en])
    finally have e': "entries c' = lru_add_entries (MaxEntries c) (entries c) k v"
      using present by (simp add: lru_add_entries_def es)
    have wo: "world c' = fire (OnEvicted c) (lru_add_evicted (MaxEntries c) (entries c) k v) (world c)"
      using present by (simp add: lru_add_evicted_def fire_Nil f)
    from r wf' e' wo f show ?thesis by simp
  next
    case None
    have absent: "k \<notin> fst ` set (entries c)"
      using map_None_iff [OF w, of k] None es by simp
    define n where "n = nextaddr c"
    define c1 where
      "c1 = c\<lparr>ll := Some (n # l),
              heap := (heap c)(n \<mapsto> \<lparr>entry_key = k, entry_value = v\<rparr>),
              nextaddr := Suc n, cache := Some (m(k \<mapsto> n))\<rparr>"
    have f1: "ll c1 = Some (n # l)" "cache c1 = Some (m(k \<mapsto> n))"
      "heap c1 = (heap c)(n \<mapsto> \<lparr>entry_key = k, entry_value = v\<rparr>)" "nextaddr c1 = Suc n"
      "MaxEntries c1 = MaxEntries c" "OnEvicted c1 = OnEvicted c" "world c1 = world c"
      by (simp_all add: c1_def)
    have wl: "wf_list (nextaddr c1) (heap c1) (n # l) (m(k \<mapsto> n))"
      unfolding f1 using wf_list_push [OF w None] by (simp add: n_def)
    have wf1: "Cache_wf c1" using wl by (simp add: wf_Some [OF f1(1,2)])
    have "entries c1 = map (ent (heap c1)) (n # l)" by (rule entries_map [OF f1(1) wl])
    also have "\<dots> = (k, v) # map (ent (heap c)) l"
      using wf_list_fresh [OF w] by (simp add: f1 ent_upd_same kv_of_def map_ent_fresh n_def)
    finally have e1: "entries c1 = (k, v) # entries c" by (simp add: es)
    have len: "int (length (n # l)) = int (length (entries c)) + 1" by (simp add: es)
    have r0: "Cache_Add c k v =
             (if MaxEntries c \<noteq> 0 \<and> int (length (n # l)) > MaxEntries c
              then Cache_RemoveOldest c1 else Inr c1)"
      unfolding Cache_Add_def c1_def n_def by (simp add: l m None Let_def)
    define ov where "ov \<longleftrightarrow> MaxEntries c \<noteq> 0 \<and> int (length (entries c)) + 1 > MaxEntries c"
    have r: "Cache_Add c k v = (if ov then Cache_RemoveOldest c1 else Inr c1)"
      unfolding ov_def len [symmetric] by (rule r0)
    have lae: "lru_add_entries (MaxEntries c) (entries c) k v =
               (if ov then butlast ((k, v) # entries c) else (k, v) # entries c)"
      using absent by (simp only: lru_add_entries_def ov_def if_False)
    have lev: "lru_add_evicted (MaxEntries c) (entries c) k v =
               (if ov then [last ((k, v) # entries c)] else [])"
      using absent by (simp only: lru_add_evicted_def ov_def if_False)
    show ?thesis
    proof (cases ov)
      case True
      from RemoveOldest_ok [OF wf1] obtain c' where cc:
        "Cache_RemoveOldest c1 = Inr c' \<and> Cache_wf c' \<and>
         (cache c' = None) = (cache c1 = None) \<and> entries c' = butlast (entries c1) \<and>
         world c' = fire (OnEvicted c1) (tail_entry (entries c1)) (world c1) \<and>
         MaxEntries c' = MaxEntries c1 \<and> OnEvicted c' = OnEvicted c1" ..
      then have c': "Cache_RemoveOldest c1 = Inr c'" "Cache_wf c'"
        "(cache c' = None) = (cache c1 = None)" "entries c' = butlast (entries c1)"
        "world c' = fire (OnEvicted c1) (tail_entry (entries c1)) (world c1)"
        "MaxEntries c' = MaxEntries c1" "OnEvicted c' = OnEvicted c1"
        by (intro conjunct1 [OF cc] conjunct1 [OF conjunct2 [OF cc]], simp_all only:)
      have "Cache_Add c k v = Inr c'" by (simp only: r True if_True c'(1))
      moreover have "entries c' = lru_add_entries (MaxEntries c) (entries c) k v"
        by (simp only: lae True if_True c'(4) e1)
      moreover have "tail_entry (entries c1) = [last ((k, v) # entries c)]"
        by (simp add: tail_entry_def e1)
      then have "world c' = fire (OnEvicted c) (lru_add_evicted (MaxEntries c) (entries c) k v) (world c)"
        by (simp only: lev True if_True c'(5) f1)
      moreover have "cache c' \<noteq> None" using c'(3) f1(2) by simp
      ultimately show ?thesis using c'(2,6,7) f1(5,6) by simp
    next
      case False
      have "Cache_Add c k v = Inr c1" by (simp only: r False if_False)
      moreover have "entries c1 = lru_add_entries (MaxEntries c) (entries c) k v"
        by (simp only: lae False if_False e1)
      moreover have "world c1 = fire (OnEvicted c) (lru_add_evicted (MaxEntries c) (entries c) k v) (world c)"
        by (simp only: lev False if_False fire_Nil f1)
      moreover have "cache c1 \<noteq> None" using f1(2) by simp
      ultimately show ?thesis using wf1 f1(5,6) by simp
    qed
  qed
qed

lemma Add_nil_init:
  "cache c = None \<Longrightarrow> Cache_Add c k v = Cache_Add (c\<lparr>cache := Some Map.empty, ll := Some []\<rparr>) k v"
  by (simp add: Cache_Add_def)

lemma Add_ok:
  assumes "Cache_wf c"
  shows "\<exists>c'. Cache_Add c k v = Inr c' \<and> Cache_wf c' \<and> cache c' \<noteq> None \<and>
           entries c' = lru_add_entries (MaxEntries c) (entries c) k v \<and>
           world c' = fire (OnEvicted c) (lru_add_evicted (MaxEntries c) (entries c) k v) (world c) \<and>
           MaxEntries c' = MaxEntries c \<and> OnEvicted c' = OnEvicted c"
  using assms
proof (cases rule: wf_cases)
  case nil
  define ci where "ci = c\<lparr>cache := Some Map.empty, ll := Some []\<rparr>"
  have f: "ll ci = Some []" "cache ci = Some Map.empty" "heap ci = heap c"
    "nextaddr ci = nextaddr c" "MaxEntries ci = MaxEntries c" "OnEvicted ci = OnEvicted c"
    "world ci = world c"
    by (simp_all add: ci_def)
  have w: "wf_list (nextaddr ci) (heap ci) [] Map.empty" by (rule wf_list_empty)
  have e: "entries ci = entries c" using nil f by (simp add: entries_def List.map_filter_simps)
  have "Cache_Add c k v = Cache_Add ci k v" unfolding ci_def by (rule Add_nil_init [OF nil(2)])
  with Add_init_ok [OF f(1,2) w, of k v] show ?thesis by (simp add: e f)
next
  case (init l m)
  then show ?thesis by (rule Add_init_ok)
qed


lemma Get_ok:
  assumes "Cache_wf c"
  shows "\<exists>c'. Cache_Get c k = Inr ((map_of (entries c) k, map_of (entries c) k \<noteq> None), c') \<and>
           Cache_wf c' \<and> (cache c' = None) = (cache c = None) \<and>
           entries c' =
             (case map_of (entries c) k of
                None \<Rightarrow> entries c
              | Some v \<Rightarrow> (k, v) # filter (\<lambda>x. fst x \<noteq> k) (entries c)) \<and>
           world c' = world c \<and> MaxEntries c' = MaxEntries c \<and> OnEvicted c' = OnEvicted c"
  using assms
proof (cases rule: wf_cases)
  case nil
  then show ?thesis using assms by (simp add: Cache_Get_def entries_def)
next
  case (init l m)
  have es: "entries c = map (ent (heap c)) l" by (rule entries_map [OF init(1,3)])
  note mo = map_of_ent [OF init(3), of k]
  show ?thesis
  proof (cases "m k")
    case None
    have "map_of (entries c) k = None" using mo None es by simp
    then show ?thesis using assms None init by (simp add: Cache_Get_def)
  next
    case (Some e)
    from map_ent_key [OF init(3) Some] have el: "e \<in> set l" and fk: "fst (ent (heap c) e) = k"
      by blast+
    obtain en where en: "heap c e = Some en" using wf_list_heap [OF init(3) el] by blast
    have sv: "snd (ent (heap c) e) = entry_value en" using en by (simp add: ent_def kv_of_def)
    have mv: "map_of (entries c) k = Some (entry_value en)" using mo Some es sv by simp
    define c' where "c' = c\<lparr>ll := Some (e # remove1 e l)\<rparr>"
    have mf: "list_MoveToFront l e = e # remove1 e l"
      using el by (simp add: list_MoveToFront_def)
    have r: "Cache_Get c k = Inr ((Some (entry_value en), True), c')"
      by (simp add: Cache_Get_def init Some en mf c'_def)
    have f: "ll c' = Some (e # remove1 e l)" "cache c' = Some m" "heap c' = heap c"
      "nextaddr c' = nextaddr c" "MaxEntries c' = MaxEntries c" "OnEvicted c' = OnEvicted c"
      "world c' = world c"
      by (simp_all add: c'_def init)
    have d: "distinct (e # remove1 e l)" "set (e # remove1 e l) = set l"
      using el wf_list_distinct [OF init(3)] by auto
    have wl: "wf_list (nextaddr c') (heap c') (e # remove1 e l) m"
      unfolding f by (rule wf_list_perm [OF init(3) d])
    have wf': "Cache_wf c'" using wl by (simp add: wf_Some [OF f(1,2)])
    have pe: "ent (heap c) e = (k, entry_value en)" using fk sv by (metis prod.collapse)
    have "entries c' = map (ent (heap c')) (e # remove1 e l)"
      by (rule entries_map [OF f(1) wl])
    also have "\<dots> = (k, entry_value en) # filter (\<lambda>x. fst x \<noteq> k) (entries c)"
      using map_ent_remove [OF init(3) el] by (simp add: f pe es)
    finally have e': "entries c' = (k, entry_value en) # filter (\<lambda>x. fst x \<noteq> k) (entries c)" .
    from r wf' e' mv f init(2) show ?thesis by simp
  qed
qed

lemma Clear_call_ok:
  assumes m: "cache c = Some m" and w: "wf_list n (heap c) l m" and l: "ll c = Some l"
  shows "Clear_call c f (Inr w0) k =
           Inr (foldl (\<lambda>w' kv. f (fst kv) (snd kv) w') w0
                  (case map_of (entries c) k of None \<Rightarrow> [] | Some v \<Rightarrow> [(k, v)]))"
proof -
  have es: "entries c = map (ent (heap c)) l" by (rule entries_map [OF l w])
  note mo = map_of_ent [OF w, of k]
  show ?thesis
  proof (cases "m k")
    case None
    then show ?thesis using mo es by (simp add: Clear_call_def m)
  next
    case (Some e)
    from map_ent_key [OF w Some] have el: "e \<in> set l" and fk: "fst (ent (heap c) e) = k"
      by blast+
    obtain en where en: "heap c e = Some en" using wf_list_heap [OF w el] by blast
    have "entry_key en = k" "snd (ent (heap c) e) = entry_value en"
      using fk en by (simp_all add: ent_def kv_of_def)
    then show ?thesis using mo es Some en by (simp add: Clear_call_def m)
  qed
qed

lemma foldl_Clear_call_ok:
  assumes m: "cache c = Some m" and w: "wf_list n (heap c) l m" and l: "ll c = Some l"
  shows "foldl (Clear_call c f) (Inr w0) ord =
           Inr (foldl (\<lambda>w' kv. f (fst kv) (snd kv) w') w0 (clear_calls (entries c) ord))"
proof (induction ord arbitrary: w0)
  case Nil
  show ?case by (simp add: clear_calls_def)
next
  case (Cons k ord)
  show ?case
    by (simp add: Clear_call_ok [OF m w l] Cons.IH clear_calls_def)
qed

lemma foldl_Clear_call_nil:
  "cache c = None \<Longrightarrow> foldl (Clear_call c f) (Inr w0) ord = Inr w0"
  by (induction ord) (simp_all add: Clear_call_def)

lemma clear_calls_Nil: "clear_calls [] ord = []"
  by (induction ord) (simp_all add: clear_calls_def)

lemma Clear_ok:
  assumes "Cache_wf c"
  shows "\<exists>c'. Cache_Clear c ord = Inr c' \<and> Cache_wf c' \<and> ll c' = None \<and> cache c' = None \<and>
           entries c' = [] \<and>
           world c' = fire (OnEvicted c) (clear_calls (entries c) ord) (world c) \<and>
           MaxEntries c' = MaxEntries c \<and> OnEvicted c' = OnEvicted c"
  using assms
proof (cases rule: wf_cases)
  case nil
  have "entries c = []" using nil by (simp add: entries_def)
  then show ?thesis
    by (simp add: Cache_Clear_def foldl_Clear_call_nil [OF nil(2)] clear_calls_Nil fire_def
        Cache_wf_def entries_def split: option.splits)
next
  case (init l m)
  show ?thesis
    by (simp add: Cache_Clear_def foldl_Clear_call_ok [OF init(2,3,1)] fire_def
        Cache_wf_def entries_def split: option.splits)
qed

lemma concat_singletons: "(\<forall>k\<in>set xs. g k = [h k]) \<Longrightarrow> concat (map g xs) = map h xs"
  by (induction xs) simp_all

lemma clear_calls_all:
  assumes d: "distinct (map fst es)" and o: "distinct ord" and s: "set ord = fst ` set es"
  shows "mset (clear_calls es ord) = mset es"
proof -
  have c: "clear_calls es ord = map (\<lambda>k. (k, the (map_of es k))) ord"
    unfolding clear_calls_def
  proof -
    have "\<forall>k\<in>set ord. (case map_of es k of None \<Rightarrow> [] | Some v \<Rightarrow> [(k, v)]) = [(k, the (map_of es k))]"
    proof
      fix k assume "k \<in> set ord"
      then have "k \<in> fst ` set es" using s by simp
      then obtain v where "map_of es k = Some v"
        by (metis map_of_eq_None_iff not_Some_eq)
      then show "(case map_of es k of None \<Rightarrow> [] | Some v \<Rightarrow> [(k, v)]) = [(k, the (map_of es k))]"
        by simp
    qed
    then show "concat (map (\<lambda>k. case map_of es k of None \<Rightarrow> [] | Some v \<Rightarrow> [(k, v)]) ord) =
               map (\<lambda>k. (k, the (map_of es k))) ord"
      by (rule concat_singletons)
  qed
  have "set ord = set (map fst es)" using s by simp
  then have "mset ord = mset (map fst es)"
    using set_eq_iff_mset_eq_distinct [OF o d] by blast
  then have "mset (map (\<lambda>k. (k, the (map_of es k))) ord) =
             mset (map (\<lambda>k. (k, the (map_of es k))) (map fst es))"
    by (metis mset_map)
  also have "map (\<lambda>k. (k, the (map_of es k))) (map fst es) = map (\<lambda>x. x) es"
    unfolding map_map
  proof (rule map_cong [OF refl])
    fix x assume "x \<in> set es"
    then have "map_of es (fst x) = Some (snd x)" using d by simp
    then show "((\<lambda>k. (k, the (map_of es k))) \<circ> fst) x = x" by simp
  qed
  finally show ?thesis using c by simp
qed

section \<open>The cache: the claims\<close>

lemma entries_distinct: "Cache_wf c \<Longrightarrow> distinct (map fst (entries c))"
proof (erule wf_cases)
  assume "ll c = None" "cache c = None"
  then show ?thesis by (simp add: entries_def)
next
  fix l m assume a: "ll c = Some l" "cache c = Some m" "wf_list (nextaddr c) (heap c) l m"
  show ?thesis using keys_distinct [OF a(3)] by (simp add: entries_map [OF a(1,3)])
qed

lemma wf_lru_zero: "Cache_wf (lru_zero M cb w)"
  by (simp add: lru_zero_def Cache_wf_def)

lemma wf_lru_New: "Cache_wf (lru_New M w)"
  by (simp add: lru_New_def Cache_wf_def wf_list_empty)

lemma entries_lru_New: "entries (lru_New M w) = []"
  by (simp add: lru_New_def entries_def List.map_filter_simps)

lemma Remove_absent:
  "(case cache c of None \<Rightarrow> True | Some m \<Rightarrow> m k = None) \<Longrightarrow> Cache_Remove c k = Inr c"
  by (simp add: Cache_Remove_def split: option.splits)

lemma Add_on_nil:
  assumes "cache c = None"
  shows "\<exists>c'. Cache_Add c k v = Inr c' \<and> Cache_wf c' \<and> cache c' \<noteq> None \<and>
           entries c' = (if MaxEntries c < 0 then [] else [(k, v)]) \<and>
           MaxEntries c' = MaxEntries c \<and> OnEvicted c' = OnEvicted c"
proof -
  define ci where "ci = c\<lparr>cache := Some Map.empty, ll := Some []\<rparr>"
  have f: "ll ci = Some []" "cache ci = Some Map.empty" "heap ci = heap c"
    "nextaddr ci = nextaddr c" "MaxEntries ci = MaxEntries c" "OnEvicted ci = OnEvicted c"
    by (simp_all add: ci_def)
  have w: "wf_list (nextaddr ci) (heap ci) [] Map.empty" by (rule wf_list_empty)
  have e: "entries ci = []" using f by (simp add: entries_def List.map_filter_simps)
  have a: "Cache_Add c k v = Cache_Add ci k v" unfolding ci_def by (rule Add_nil_init [OF assms])
  have l: "lru_add_entries (MaxEntries c) [] k v = (if MaxEntries c < 0 then [] else [(k, v)])"
    by (auto simp: lru_add_entries_def)
  from Add_init_ok [OF f(1,2) w, of k v] obtain c' where cc:
    "Cache_Add ci k v = Inr c' \<and> Cache_wf c' \<and> cache c' \<noteq> None \<and>
     entries c' = lru_add_entries (MaxEntries ci) (entries ci) k v \<and>
     world c' = fire (OnEvicted ci) (lru_add_evicted (MaxEntries ci) (entries ci) k v) (world ci) \<and>
     MaxEntries c' = MaxEntries ci \<and> OnEvicted c' = OnEvicted ci" ..
  then have c': "Cache_Add ci k v = Inr c'" "Cache_wf c'" "cache c' \<noteq> None"
    "entries c' = lru_add_entries (MaxEntries ci) (entries ci) k v"
    "MaxEntries c' = MaxEntries ci" "OnEvicted c' = OnEvicted ci"
    by blast+
  have "Cache_Add c k v = Inr c'" by (simp only: a c'(1))
  moreover have "entries c' = (if MaxEntries c < 0 then [] else [(k, v)])"
    by (simp only: c'(4) f(5) e l)
  moreover have "MaxEntries c' = MaxEntries c" "OnEvicted c' = OnEvicted c"
    by (simp_all only: c'(5,6) f(5,6))
  ultimately show ?thesis using c'(2,3) by blast
qed

text \<open>
  C10. On a cache whose map is nil (the zero value, or a cache after \<^verbatim>\<open>Clear\<close>, which
  leaves the list and the map nil) no operation panics: \<^verbatim>\<open>Get\<close> returns nil and false and
  leaves the cache as it is, \<^verbatim>\<open>Remove\<close> and \<^verbatim>\<open>RemoveOldest\<close> leave the cache as it is,
  \<^verbatim>\<open>Len\<close> returns 0, and \<^verbatim>\<open>Add\<close> does what it does on the cache with an empty list and
  an empty map: the result is well formed and holds the added entry alone, its length is 1
  and \<^verbatim>\<open>Get\<close> finds the value (when \<^verbatim>\<open>MaxEntries\<close> is negative the added entry is evicted
  at once, as on any cache). On every cache, \<^verbatim>\<open>Remove\<close> of a key the map does not hold
  leaves the cache as it is, so on a well-formed cache a second \<^verbatim>\<open>Remove\<close> of the same key
  changes nothing.
\<close>

theorem nil_cache_operations:
  assumes "cache c = None"
  shows "Cache_Get c k = Inr ((None, False), c) \<and>
         Cache_Remove c k = Inr c \<and>
         Cache_RemoveOldest c = Inr c \<and>
         Cache_Len c = Inr 0 \<and>
         Cache_Add c k v = Cache_Add (c\<lparr>cache := Some Map.empty, ll := Some []\<rparr>) k v \<and>
         (\<exists>c'. Cache_Add c k v = Inr c' \<and> Cache_wf c' \<and> cache c' \<noteq> None \<and>
             entries c' = (if MaxEntries c < 0 then [] else [(k, v)]) \<and>
             Cache_Len c' = Inr (if MaxEntries c < 0 then 0 else 1) \<and>
             (\<exists>c''. Cache_Get c' k =
                Inr ((if MaxEntries c < 0 then (None, False) else (Some v, True)), c''))) \<and>
         (Cache_wf c0 \<longrightarrow>
            (\<exists>c'. Cache_Clear c0 ord = Inr c' \<and> ll c' = None \<and> cache c' = None)) \<and>
         ((case cache c1 of None \<Rightarrow> True | Some m \<Rightarrow> m k = None) \<longrightarrow> Cache_Remove c1 k = Inr c1) \<and>
         (Cache_wf c1 \<longrightarrow>
            (\<exists>c'. Cache_Remove c1 k = Inr c' \<and> Cache_Remove c' k = Inr c'))"
proof (intro conjI impI)
  show "Cache_Get c k = Inr ((None, False), c)" using assms by (simp add: Cache_Get_def)
  show "Cache_Remove c k = Inr c" using assms by (simp add: Cache_Remove_def)
  show "Cache_RemoveOldest c = Inr c" using assms by (simp add: Cache_RemoveOldest_def)
  show "Cache_Len c = Inr 0" using assms by (simp add: Cache_Len_def)
  show "Cache_Add c k v = Cache_Add (c\<lparr>cache := Some Map.empty, ll := Some []\<rparr>) k v"
    by (rule Add_nil_init [OF assms])
  show "\<exists>c'. Cache_Add c k v = Inr c' \<and> Cache_wf c' \<and> cache c' \<noteq> None \<and>
             entries c' = (if MaxEntries c < 0 then [] else [(k, v)]) \<and>
             Cache_Len c' = Inr (if MaxEntries c < 0 then 0 else 1) \<and>
             (\<exists>c''. Cache_Get c' k =
                Inr ((if MaxEntries c < 0 then (None, False) else (Some v, True)), c''))"
  proof -
    from Add_on_nil [OF assms, of k v] obtain c' where cc:
      "Cache_Add c k v = Inr c' \<and> Cache_wf c' \<and> cache c' \<noteq> None \<and>
       entries c' = (if MaxEntries c < 0 then [] else [(k, v)]) \<and>
       MaxEntries c' = MaxEntries c \<and> OnEvicted c' = OnEvicted c" ..
    then have a: "Cache_Add c k v = Inr c'" and w: "Cache_wf c'" and n: "cache c' \<noteq> None"
      and e: "entries c' = (if MaxEntries c < 0 then [] else [(k, v)])"
      by blast+
    have len: "Cache_Len c' = Inr (if MaxEntries c < 0 then 0 else 1)"
      using Len_ok [OF w] by (simp add: e)
    from Get_ok [OF w, of k] obtain c'' where
      "Cache_Get c' k = Inr ((map_of (entries c') k, map_of (entries c') k \<noteq> None), c'')"
      by blast
    then have "Cache_Get c' k =
                Inr ((if MaxEntries c < 0 then (None, False) else (Some v, True)), c'')"
      by (simp add: e)
    with a w n e len show ?thesis by blast
  qed
  show "\<exists>c'. Cache_Clear c0 ord = Inr c' \<and> ll c' = None \<and> cache c' = None" if "Cache_wf c0"
    using Clear_ok [OF that, of ord] by blast
  show "Cache_Remove c1 k = Inr c1" if "case cache c1 of None \<Rightarrow> True | Some m \<Rightarrow> m k = None"
    using that by (rule Remove_absent)
  show "\<exists>c'. Cache_Remove c1 k = Inr c' \<and> Cache_Remove c' k = Inr c'" if w1: "Cache_wf c1"
  proof -
    from Remove_ok [OF w1, of k] obtain c' where r: "Cache_Remove c1 k = Inr c'"
      and w': "Cache_wf c'" and e': "entries c' = filter (\<lambda>x. fst x \<noteq> k) (entries c1)"
      by blast
    from Remove_ok [OF w', of k] obtain c'' where r': "Cache_Remove c' k = Inr c''" by blast
    have absent: "k \<notin> fst ` set (entries c')" using e' by auto
    have "case cache c' of None \<Rightarrow> True | Some m \<Rightarrow> m k = None"
    proof (cases "cache c'")
      case None
      then show ?thesis by simp
    next
      case (Some m)
      from w' Some obtain l where l: "ll c' = Some l" and wl: "wf_list (nextaddr c') (heap c') l m"
        by (auto simp: Cache_wf_def split: option.splits)
      have "m k = None"
        using map_None_iff [OF wl, of k] absent entries_map [OF l wl] by simp
      with Some show ?thesis by simp
    qed
    then have "Cache_Remove c' k = Inr c'" by (rule Remove_absent)
    with r show ?thesis by blast
  qed
qed

theorem nil_cache_operations_witness:
  "cache zero_cache = None \<and>
   Cache_Len zero_cache = Inr 0 \<and>
   Cache_Get zero_cache ''A'' = Inr ((None, False), zero_cache) \<and>
   (\<exists>c'. Cache_Add zero_cache ''A'' 1 = Inr c' \<and> entries c' = [(''A'', 1)] \<and>
      Cache_Len c' = Inr 1) \<and>
   Cache_wf zero_cache \<and>
   (\<exists>c'. Cache_Remove zero_cache ''A'' = Inr c' \<and> Cache_Remove c' ''A'' = Inr c')"
proof -
  have n: "cache zero_cache = None" by (simp add: zero_cache_def lru_zero_def)
  have m: "MaxEntries zero_cache = 0" by (simp add: zero_cache_def lru_zero_def)
  have w: "Cache_wf zero_cache" unfolding zero_cache_def by (rule wf_lru_zero)
  note T = nil_cache_operations [OF n, of "''A''" 1 zero_cache "[]" zero_cache]
  from T obtain c' where a: "Cache_Add zero_cache ''A'' 1 = Inr c'"
    and e: "entries c' = (if MaxEntries zero_cache < 0 then [] else [(''A'', 1)])"
    and l: "Cache_Len c' = Inr (if MaxEntries zero_cache < 0 then 0 else 1)"
    by blast
  have e': "entries c' = [(''A'', 1)]" using e by (simp add: m)
  have l': "Cache_Len c' = Inr 1" using l by (simp add: m)
  from a e' l' have ex: "\<exists>c'. Cache_Add zero_cache ''A'' 1 = Inr c' \<and> entries c' = [(''A'', 1)] \<and>
      Cache_Len c' = Inr 1"
    by blast
  from T ex n w show ?thesis by blast
qed

lemma present_iff:
  assumes "Cache_wf c" "cache c = Some m"
  shows "(m k \<noteq> None) = (k \<in> fst ` set (entries c))"
proof -
  from assms obtain l where l: "ll c = Some l" and wl: "wf_list (nextaddr c) (heap c) l m"
    by (auto simp: Cache_wf_def split: option.splits)
  show ?thesis using map_None_iff [OF wl, of k] entries_map [OF l wl] by simp
qed

lemma length_filter_key:
  "distinct (map fst es) \<Longrightarrow> k \<in> fst ` set es \<Longrightarrow>
   Suc (length (filter (\<lambda>x. fst x \<noteq> k) es)) = length es"
proof (induction es)
  case Nil
  then show ?case by simp
next
  case (Cons x es)
  show ?case
  proof (cases "fst x = k")
    case True
    then have "k \<notin> fst ` set es" using Cons.prems(1) by auto
    then have "filter (\<lambda>x. fst x \<noteq> k) es = es" by (auto simp: filter_id_conv)
    with True show ?thesis by simp
  next
    case False
    then have "k \<in> fst ` set es" using Cons.prems(2) by auto
    with Cons.IH Cons.prems(1) False show ?thesis by simp
  qed
qed

lemma map_of_filter_key:
  "map_of (filter (\<lambda>x. fst x \<noteq> k) es) k' = (if k' = k then None else map_of es k')"
  by (induction es) auto

lemma over_cache_wf: "Cache_wf over_cache"
  by (auto simp: over_cache_def Cache_wf_def wf_list_def split: if_splits)

text \<open>
  C9. On a well-formed cache whose map holds the key \<open>k\<close>, \<^verbatim>\<open>Add(k, v)\<close> returns a
  well-formed cache in which the entry of \<open>k\<close> is at the front with the value \<open>v\<close> and the
  other entries follow in their old order with their old values: the length and the set
  of keys are the same, the callback is not called (the state it acts on is unchanged),
  and nothing depends on \<^verbatim>\<open>MaxEntries\<close>, so no entry is evicted even when the length
  exceeds it.
\<close>

theorem Add_present_key_frame:
  assumes "Cache_wf c" and "cache c = Some m" and "m k \<noteq> None"
  shows "\<exists>c'. Cache_Add c k v = Inr c' \<and> Cache_wf c' \<and>
           entries c' = (k, v) # filter (\<lambda>x. fst x \<noteq> k) (entries c) \<and>
           length (entries c') = length (entries c) \<and>
           Cache_Len c' = Cache_Len c \<and>
           map_of (entries c') k = Some v \<and>
           (\<forall>k'. k' \<noteq> k \<longrightarrow> map_of (entries c') k' = map_of (entries c) k') \<and>
           fst ` set (entries c') = fst ` set (entries c) \<and>
           world c' = world c \<and> MaxEntries c' = MaxEntries c \<and> OnEvicted c' = OnEvicted c"
proof -
  have present: "k \<in> fst ` set (entries c)"
    using present_iff [OF assms(1,2), of k] assms(3) by simp
  from Add_ok [OF assms(1), of k v] obtain c' where
    a: "Cache_Add c k v = Inr c'" and w: "Cache_wf c'"
    and e0: "entries c' = lru_add_entries (MaxEntries c) (entries c) k v"
    and w0: "world c' = fire (OnEvicted c) (lru_add_evicted (MaxEntries c) (entries c) k v) (world c)"
    and mx: "MaxEntries c' = MaxEntries c" and cb: "OnEvicted c' = OnEvicted c"
    by blast
  have e: "entries c' = (k, v) # filter (\<lambda>x. fst x \<noteq> k) (entries c)"
    using e0 present by (simp add: lru_add_entries_def)
  have wo: "world c' = world c"
    using w0 present by (simp add: lru_add_evicted_def fire_Nil)
  have len: "length (entries c') = length (entries c)"
    using length_filter_key [OF entries_distinct [OF assms(1)] present] by (simp add: e)
  have Len: "Cache_Len c' = Cache_Len c"
    by (simp add: Len_ok [OF w] Len_ok [OF assms(1)] len)
  have mk: "map_of (entries c') k = Some v" by (simp add: e)
  have others: "\<forall>k'. k' \<noteq> k \<longrightarrow> map_of (entries c') k' = map_of (entries c) k'"
    by (simp add: e map_of_filter_key)
  have ks: "fst ` set (entries c') = fst ` set (entries c)"
    using present by (auto simp: e)
  from a w e len Len mk others ks wo mx cb show ?thesis by blast
qed

theorem Add_present_key_frame_witness:
  "Cache_wf over_cache \<and> entries over_cache = [(''B'', 2), (''A'', 1)] \<and>
   MaxEntries over_cache = 1 \<and> Cache_Len over_cache = Inr 2 \<and>
   (\<exists>c'. Cache_Add over_cache ''A'' 7 = Inr c' \<and>
      entries c' = [(''A'', 7), (''B'', 2)] \<and> Cache_Len c' = Inr 2 \<and> world c' = [])"
proof -
  have c: "cache over_cache = Some [''A'' \<mapsto> 0, ''B'' \<mapsto> 1]" by (simp add: over_cache_def)
  have p: "[''A'' \<mapsto> 0::nat, ''B'' \<mapsto> 1] ''A'' \<noteq> None" by simp
  have e: "entries over_cache = [(''B'', 2), (''A'', 1)]"
    by (simp add: over_cache_def entries_def List.map_filter_simps kv_of_def)
  have m: "MaxEntries over_cache = 1" and w0: "world over_cache = []"
    by (simp_all add: over_cache_def)
  have l: "Cache_Len over_cache = Inr 2"
    by (simp add: Len_ok [OF over_cache_wf] e)
  from Add_present_key_frame [OF over_cache_wf c p, of 7] obtain c' where
    "Cache_Add over_cache ''A'' 7 = Inr c'"
    "entries c' = (''A'', 7) # filter (\<lambda>x. fst x \<noteq> ''A'') (entries over_cache)"
    "Cache_Len c' = Cache_Len over_cache" "world c' = world over_cache"
    by blast
  then have "Cache_Add over_cache ''A'' 7 = Inr c' \<and>
      entries c' = [(''A'', 7), (''B'', 2)] \<and> Cache_Len c' = Inr 2 \<and> world c' = []"
    by (simp add: e l w0)
  then show ?thesis using over_cache_wf e m l by blast
qed

lemma Adds_snoc:
  "Cache_Adds c (kvs @ [kv]) =
     (case Cache_Adds c kvs of Inl p \<Rightarrow> Inl p | Inr c' \<Rightarrow> Cache_Add c' (fst kv) (snd kv))"
  by (induction kvs arbitrary: c) (simp_all split: sum.splits)

lemma mru_snoc: "mru (kvs @ [kv]) = kv # filter (\<lambda>x. fst x \<noteq> fst kv) (mru kvs)"
  by (simp add: mru_def)

lemma mru_distinct: "distinct (map fst (mru kvs))"
proof (induction kvs rule: rev_induct)
  case Nil
  show ?case by (simp add: mru_def)
next
  case (snoc kv kvs)
  have "distinct (map fst (filter (\<lambda>x. fst x \<noteq> fst kv) (mru kvs)))"
    using snoc.IH by (rule distinct_map_filter)
  then show ?case by (auto simp: mru_snoc)
qed

lemma remdups_snoc: "remdups (xs @ [x]) = removeAll x (remdups xs) @ [x]"
  by (induction xs) auto

lemma filter_neq_removeAll: "filter (\<lambda>y. y \<noteq> k) xs = removeAll k xs"
  by (induction xs) auto

lemma rev_removeAll: "rev (removeAll x xs) = removeAll x (rev xs)"
  by (simp add: removeAll_filter_not_eq rev_filter)

lemma mru_keys: "map fst (mru kvs) = rev (remdups (map fst kvs))"
proof (induction kvs rule: rev_induct)
  case Nil
  show ?case by (simp add: mru_def)
next
  case (snoc kv kvs)
  have "map fst (filter (\<lambda>x. fst x \<noteq> fst kv) (mru kvs)) =
        filter (\<lambda>y. y \<noteq> fst kv) (map fst (mru kvs))"
    by (simp add: filter_map comp_def)
  also have "\<dots> = removeAll (fst kv) (rev (remdups (map fst kvs)))"
    by (simp add: snoc.IH filter_neq_removeAll)
  finally show ?case
    by (simp add: mru_snoc remdups_snoc rev_removeAll)
qed

lemma filter_take_present:
  "distinct (map fst M) \<Longrightarrow> k \<in> fst ` set (take n M) \<Longrightarrow>
   filter (\<lambda>x. fst x \<noteq> k) (take n M) = take (n - 1) (filter (\<lambda>x. fst x \<noteq> k) M)"
proof (induction M arbitrary: n)
  case Nil
  then show ?case by simp
next
  case (Cons x M)
  from Cons.prems(2) obtain n' where n: "n = Suc n'" by (cases n) auto
  show ?case
  proof (cases "fst x = k")
    case True
    then have "k \<notin> fst ` set M" using Cons.prems(1) by auto
    then have "filter (\<lambda>x. fst x \<noteq> k) M = M" by (auto simp: filter_id_conv)
    moreover from \<open>k \<notin> fst ` set M\<close> have "k \<notin> fst ` set (take n' M)"
      using set_take_subset by fastforce
    then have "filter (\<lambda>x. fst x \<noteq> k) (take n' M) = take n' M" by (auto simp: filter_id_conv)
    ultimately show ?thesis using True n by simp
  next
    case False
    then have p: "k \<in> fst ` set (take n' M)" using Cons.prems(2) n by auto
    then obtain n'' where n': "n' = Suc n''" by (cases n') auto
    have "filter (\<lambda>x. fst x \<noteq> k) (take n' M) = take (n' - 1) (filter (\<lambda>x. fst x \<noteq> k) M)"
      using Cons.IH [OF _ p] Cons.prems(1) by simp
    then show ?thesis using False n n' by simp
  qed
qed

lemma take_filter_absent:
  "k \<notin> fst ` set (take n M) \<Longrightarrow> take n (filter (\<lambda>x. fst x \<noteq> k) M) = take n M"
proof (induction M arbitrary: n)
  case Nil
  then show ?case by simp
next
  case (Cons x M)
  show ?case
  proof (cases n)
    case 0
    then show ?thesis by simp
  next
    case (Suc n')
    with Cons.prems have "fst x \<noteq> k" "k \<notin> fst ` set (take n' M)" by auto
    with Cons.IH [of n'] Suc show ?thesis by simp
  qed
qed

lemma lru_add_entries_absent:
  "k \<notin> fst ` set es \<Longrightarrow>
   lru_add_entries M es k v =
     (if M \<noteq> 0 \<and> int (length es) + 1 > M then butlast ((k, v) # es) else (k, v) # es)"
  by (simp add: lru_add_entries_def)

lemma lru_add_take:
  assumes d: "distinct (map fst M)" and n: "0 < n"
  shows "lru_add_entries (int n) (take n M) k v = take n ((k, v) # filter (\<lambda>x. fst x \<noteq> k) M)"
proof -
  obtain n' where n': "n = Suc n'" using n by (cases n) auto
  have rhs: "take n ((k, v) # filter (\<lambda>x. fst x \<noteq> k) M) =
             (k, v) # take (n - 1) (filter (\<lambda>x. fst x \<noteq> k) M)"
    using n' by simp
  show ?thesis
  proof (cases "k \<in> fst ` set (take n M)")
    case True
    have "lru_add_entries (int n) (take n M) k v = (k, v) # filter (\<lambda>x. fst x \<noteq> k) (take n M)"
      using True by (simp only: lru_add_entries_def if_True)
    also have "\<dots> = (k, v) # take (n - 1) (filter (\<lambda>x. fst x \<noteq> k) M)"
      by (simp only: filter_take_present [OF d True])
    finally show ?thesis by (simp only: rhs)
  next
    case False
    have t: "take (n - 1) (filter (\<lambda>x. fst x \<noteq> k) M) = take (n - 1) M"
    proof -
      have "take (n - 1) (filter (\<lambda>x. fst x \<noteq> k) M) =
            take (n - 1) (take n (filter (\<lambda>x. fst x \<noteq> k) M))"
        by (simp add: min_def)
      also have "\<dots> = take (n - 1) (take n M)" by (simp only: take_filter_absent [OF False])
      also have "\<dots> = take (n - 1) M" by (simp add: min_def)
      finally show ?thesis .
    qed
    show ?thesis
    proof (cases "n \<le> length M")
      case True
      then have ov: "int n \<noteq> 0 \<and> int (length (take n M)) + 1 > int n" using n by simp
      have ne: "take n M \<noteq> []" using True n by auto
      have "lru_add_entries (int n) (take n M) k v = butlast ((k, v) # take n M)"
        by (rule trans [OF lru_add_entries_absent [OF False] if_P [OF ov]])
      also have "\<dots> = (k, v) # butlast (take n M)" using ne by simp
      also have "butlast (take n M) = take (n - 1) M" using True by (rule butlast_take)
      finally show ?thesis by (simp only: rhs t)
    next
      case False': False
      then have tk: "take n M = M" by simp
      have nov: "\<not> (int n \<noteq> 0 \<and> int (length (take n M)) + 1 > int n)" using False' by simp
      have "lru_add_entries (int n) (take n M) k v = (k, v) # take n M"
        by (rule trans [OF lru_add_entries_absent [OF False] if_not_P [OF nov]])
      also have "\<dots> = (k, v) # take (n - 1) M" using False' by (simp add: tk)
      finally show ?thesis by (simp only: rhs t)
    qed
  qed
qed


lemma Adds_ok:
  assumes C: "0 < C" and mx: "MaxEntries c0 = C" and w0: "Cache_wf c0" and e0: "entries c0 = []"
  shows "\<exists>c'. Cache_Adds c0 kvs = Inr c' \<and> Cache_wf c' \<and> MaxEntries c' = C \<and>
           OnEvicted c' = OnEvicted c0 \<and> entries c' = take (nat C) (mru kvs)"
proof (induction kvs rule: rev_induct)
  case Nil
  show ?case using mx w0 e0 by (simp add: mru_def)
next
  case (snoc kv kvs)
  from snoc.IH obtain c1 where a1: "Cache_Adds c0 kvs = Inr c1" and w1: "Cache_wf c1"
    and m1: "MaxEntries c1 = C" and o1: "OnEvicted c1 = OnEvicted c0"
    and e1: "entries c1 = take (nat C) (mru kvs)"
    by blast
  from Add_ok [OF w1, of "fst kv" "snd kv"] obtain c' where
    a: "Cache_Add c1 (fst kv) (snd kv) = Inr c'" and w: "Cache_wf c'"
    and e: "entries c' = lru_add_entries (MaxEntries c1) (entries c1) (fst kv) (snd kv)"
    and m: "MaxEntries c' = MaxEntries c1" and o: "OnEvicted c' = OnEvicted c1"
    by blast
  have n: "0 < nat C" "int (nat C) = C" using C by simp_all
  have "lru_add_entries (int (nat C)) (take (nat C) (mru kvs)) (fst kv) (snd kv) =
        take (nat C) ((fst kv, snd kv) # filter (\<lambda>x. fst x \<noteq> fst kv) (mru kvs))"
    by (rule lru_add_take [OF mru_distinct n(1)])
  then have "lru_add_entries C (take (nat C) (mru kvs)) (fst kv) (snd kv) =
        take (nat C) (kv # filter (\<lambda>x. fst x \<noteq> fst kv) (mru kvs))"
    unfolding n(2) by simp
  then have e': "entries c' = take (nat C) (mru (kvs @ [kv]))"
    by (simp only: e m1 e1 mru_snoc)
  have "Cache_Adds c0 (kvs @ [kv]) = Inr c'" by (simp add: Adds_snoc a1 a)
  with w m m1 o o1 e' show ?case by simp
qed

lemma wf_New_callback: "Cache_wf ((lru_New C w)\<lparr>OnEvicted := cb\<rparr>)"
  by (simp add: lru_New_def Cache_wf_def wf_list_empty)

lemma entries_New_callback: "entries ((lru_New C w)\<lparr>OnEvicted := cb\<rparr>) = []"
  by (simp add: lru_New_def entries_def)

text \<open>
  C3. A cache made by \<^verbatim>\<open>New(C)\<close> with \<open>C > 0\<close> (with or without a callback), after any
  finite sequence of calls of \<^verbatim>\<open>Add\<close>: no call panics, the cache holds exactly the first
  \<open>C\<close> entries of the recency order of the adds, that is the \<open>C\<close> most recently added
  distinct keys (all of them when there are fewer), most recent first, each with the value
  added last; \<^verbatim>\<open>Len\<close> is the number of entries and is at most \<open>C\<close>; and adding a key
  that is not resident to the cache when it is full evicts the entry at the tail, the least
  recently used, and nothing else, which brings the length back to \<open>C\<close>.
\<close>

theorem Adds_bounded_most_recent:
  assumes "0 < C"
  shows "\<exists>c'. Cache_Adds ((lru_New C w)\<lparr>OnEvicted := cb\<rparr>) kvs = Inr c' \<and> Cache_wf c' \<and>
           entries c' = take (nat C) (mru kvs) \<and>
           map fst (entries c') = take (nat C) (rev (remdups (map fst kvs))) \<and>
           Cache_Len c' = Inr (int (length (entries c'))) \<and>
           int (length (entries c')) \<le> C \<and>
           (\<forall>k v. k \<notin> fst ` set (entries c') \<and> int (length (entries c')) = C \<longrightarrow>
              (\<exists>c''. Cache_Add c' k v = Inr c'' \<and>
                 entries c'' = (k, v) # butlast (entries c') \<and>
                 int (length (entries c'')) = C \<and>
                 world c'' = fire cb [last (entries c')] (world c')))"
proof -
  let ?c0 = "(lru_New C w)\<lparr>OnEvicted := cb\<rparr>"
  have mx0: "MaxEntries ?c0 = C" and cb0: "OnEvicted ?c0 = cb" by (simp_all add: lru_New_def)
  from Adds_ok [OF assms mx0 wf_New_callback entries_New_callback, of kvs]
  obtain c' where a: "Cache_Adds ?c0 kvs = Inr c'" and w': "Cache_wf c'"
    and m: "MaxEntries c' = C" and o: "OnEvicted c' = OnEvicted ?c0"
    and e: "entries c' = take (nat C) (mru kvs)"
    by blast
  have ks: "map fst (entries c') = take (nat C) (rev (remdups (map fst kvs)))"
    unfolding e take_map [symmetric] mru_keys by (rule refl)
  have len: "Cache_Len c' = Inr (int (length (entries c')))" by (rule Len_ok [OF w'])
  have bound: "int (length (entries c')) \<le> C" using assms by (simp add: e)
  have step: "\<forall>k v. k \<notin> fst ` set (entries c') \<and> int (length (entries c')) = C \<longrightarrow>
              (\<exists>c''. Cache_Add c' k v = Inr c'' \<and>
                 entries c'' = (k, v) # butlast (entries c') \<and>
                 int (length (entries c'')) = C \<and>
                 world c'' = fire cb [last (entries c')] (world c'))"
  proof (intro allI impI)
    fix k v assume h: "k \<notin> fst ` set (entries c') \<and> int (length (entries c')) = C"
    then have absent: "k \<notin> fst ` set (entries c')" and full: "int (length (entries c')) = C"
      by blast+
    have ne: "entries c' \<noteq> []" using full assms by auto
    have ov: "MaxEntries c' \<noteq> 0 \<and> int (length (entries c')) + 1 > MaxEntries c'"
      using m full assms by simp
    from Add_ok [OF w', of k v] obtain c'' where
      a': "Cache_Add c' k v = Inr c''"
      and e': "entries c'' = lru_add_entries (MaxEntries c') (entries c') k v"
      and wo: "world c'' =
          fire (OnEvicted c') (lru_add_evicted (MaxEntries c') (entries c') k v) (world c')"
      by blast
    have "lru_add_entries (MaxEntries c') (entries c') k v = butlast ((k, v) # entries c')"
      by (rule trans [OF lru_add_entries_absent [OF absent] if_P [OF ov]])
    then have e'': "entries c'' = (k, v) # butlast (entries c')" using e' ne by simp
    have "lru_add_evicted (MaxEntries c') (entries c') k v = [last ((k, v) # entries c')]"
      using absent ov by (simp add: lru_add_evicted_def)
    then have wo': "world c'' = fire cb [last (entries c')] (world c')"
      using wo ne by (simp add: o cb0)
    have l'': "int (length (entries c'')) = C" using e'' ne full by simp
    from a' e'' l'' wo' show "\<exists>c''. Cache_Add c' k v = Inr c'' \<and>
                 entries c'' = (k, v) # butlast (entries c') \<and>
                 int (length (entries c'')) = C \<and>
                 world c'' = fire cb [last (entries c')] (world c')"
      by blast
  qed
  from a w' e ks len bound step show ?thesis by blast
qed

theorem Adds_bounded_most_recent_witness:
  "(0::int) < 2 \<and>
   (\<exists>c'. Cache_Adds ((lru_New 2 ([] :: (string \<times> nat) list))\<lparr>OnEvicted := Some record_call\<rparr>)
            [(''A'', 1::nat), (''B'', 2), (''A'', 3), (''C'', 4)] = Inr c' \<and>
      entries c' = [(''C'', 4), (''A'', 3)] \<and>
      map fst (entries c') = [''C'', ''A''] \<and>
      Cache_Len c' = Inr 2)"
proof -
  have p: "(0::int) < 2" by simp
  have t: "take (nat 2) (mru [(''A'', 1::nat), (''B'', 2), (''A'', 3), (''C'', 4)]) =
           [(''C'', 4), (''A'', 3)]"
    by (simp add: mru_def)
  from Adds_bounded_most_recent [OF p, where w = "[] :: (string \<times> nat) list" and cb = "Some record_call"
      and kvs = "[(''A'', 1::nat), (''B'', 2), (''A'', 3), (''C'', 4)]"]
  obtain c' where a: "Cache_Adds ((lru_New 2 ([] :: (string \<times> nat) list))\<lparr>OnEvicted := Some record_call\<rparr>)
            [(''A'', 1::nat), (''B'', 2), (''A'', 3), (''C'', 4)] = Inr c'"
    and e: "entries c' = take (nat 2) (mru [(''A'', 1::nat), (''B'', 2), (''A'', 3), (''C'', 4)])"
    and l: "Cache_Len c' = Inr (int (length (entries c')))"
    by blast
  have e': "entries c' = [(''C'', 4), (''A'', 3)]" using e t by simp
  have k: "map fst (entries c') = [''C'', ''A'']" and L: "Cache_Len c' = Inr 2"
    using l by (simp_all add: e')
  show ?thesis by (intro conjI exI [of _ c'] p a e' k L)
qed

lemma capacity_two_scenario:
  "observe (Cache_Adds capacity_two [(''A'', 1), (''B'', 2), (''C'', 3)]) =
     Inr ([(''C'', 3), (''B'', 2)], [(''A'', 1)])"
  by code_simp

lemma fire_record: "fire (Some record_call) evs w = w @ evs"
  by (induction evs arbitrary: w) (simp_all add: fire_def record_call_def)

lemma mset_filter_key:
  "distinct (map fst es) \<Longrightarrow> (k, v) \<in> set es \<Longrightarrow>
   mset es = mset (filter (\<lambda>x. fst x \<noteq> k) es) + {#(k, v)#}"
proof (induction es)
  case Nil
  then show ?case by simp
next
  case (Cons x es)
  show ?case
  proof (cases "x = (k, v)")
    case True
    then have "k \<notin> fst ` set es" using Cons.prems(1) by auto
    then have "filter (\<lambda>x. fst x \<noteq> k) es = es" by (auto simp: filter_id_conv)
    with True show ?thesis by simp
  next
    case False
    then have in_es: "(k, v) \<in> set es" using Cons.prems(2) by simp
    then have "k \<in> fst ` set es" by force
    moreover have "fst x \<notin> fst ` set es" using Cons.prems(1) by simp
    ultimately have "fst x \<noteq> k" by blast
    with Cons.IH [OF _ in_es] Cons.prems(1) show ?thesis by simp
  qed
qed

lemma filter_absent_key: "k \<notin> fst ` set es \<Longrightarrow> filter (\<lambda>x. fst x \<noteq> k) es = es"
  by (auto simp: filter_id_conv)

lemma mset_butlast_tail: "mset es = mset (butlast es) + mset (tail_entry es)"
proof (cases "es = []")
  case True
  then show ?thesis by (simp add: tail_entry_def)
next
  case False
  have "mset (butlast es) + {#last es#} = mset (butlast es @ [last es])" by simp
  also have "butlast es @ [last es] = es" using False by simp
  finally have "mset (butlast es) + {#last es#} = mset es" .
  then show ?thesis using False by (simp add: tail_entry_def)
qed

lemma lru_add_conservation:
  "mset (lru_add_entries M es k v) + mset (lru_add_evicted M es k v) =
     mset ((k, v) # filter (\<lambda>x. fst x \<noteq> k) es) \<and>
   length (lru_add_evicted M es k v) \<le> 1"
proof (cases "k \<in> fst ` set es")
  case True
  then show ?thesis by (simp add: lru_add_entries_def lru_add_evicted_def)
next
  case False
  note f = filter_absent_key [OF False]
  define ov where "ov \<longleftrightarrow> M \<noteq> 0 \<and> int (length es) + 1 > M"
  have en: "lru_add_entries M es k v = (if ov then butlast ((k, v) # es) else (k, v) # es)"
    using False by (simp only: lru_add_entries_def ov_def if_False)
  have ev: "lru_add_evicted M es k v = (if ov then [last ((k, v) # es)] else [])"
    using False by (simp only: lru_add_evicted_def ov_def if_False)
  show ?thesis
  proof (cases ov)
    case True
    have t: "tail_entry ((k, v) # es) = [last ((k, v) # es)]" by (simp add: tail_entry_def)
    have "mset ((k, v) # es) = mset (butlast ((k, v) # es)) + mset (tail_entry ((k, v) # es))"
      by (rule mset_butlast_tail)
    then have "mset (butlast ((k, v) # es)) + mset [last ((k, v) # es)] = mset ((k, v) # es)"
      by (simp only: t)
    then show ?thesis by (simp only: en ev True if_True f) simp
  next
    case no: False
    show ?thesis by (simp only: en ev no if_False f) simp
  qed
qed

lemma remove_conservation:
  assumes "distinct (map fst es)"
  shows "mset es = mset (filter (\<lambda>x. fst x \<noteq> k) es) +
           mset (case map_of es k of None \<Rightarrow> [] | Some v \<Rightarrow> [(k, v)])"
proof (cases "map_of es k")
  case None
  then have "k \<notin> fst ` set es" by (simp add: map_of_eq_None_iff)
  then show ?thesis using None by (simp add: filter_absent_key)
next
  case (Some v)
  then have "(k, v) \<in> set es" by (rule map_of_SomeD)
  from mset_filter_key [OF assms this] Some show ?thesis by simp
qed


lemma removeElement_fires_once:
  assumes w: "Cache_wf c" and l: "ll c = Some l" and e: "e \<in> set l" and en: "heap c e = Some en"
  shows "\<exists>c'. Cache_removeElement c e = Inr c' \<and> Cache_wf c' \<and>
           world c' = fire (OnEvicted c) [(entry_key en, entry_value en)] (world c) \<and>
           entries c' = filter (\<lambda>x. fst x \<noteq> entry_key en) (entries c) \<and>
           mset (entries c) = mset (entries c') + {#(entry_key en, entry_value en)#}"
proof -
  from w l obtain m where m: "cache c = Some m" and wl: "wf_list (nextaddr c) (heap c) l m"
    by (auto simp: Cache_wf_def split: option.splits)
  have ee: "ent (heap c) e = (entry_key en, entry_value en)"
    using en by (simp add: ent_def kv_of_def)
  have es: "entries c = map (ent (heap c)) l" by (rule entries_map [OF l wl])
  have mem: "(entry_key en, entry_value en) \<in> set (entries c)"
    using e ee es by force
  from removeElement_ok [OF l m wl e] obtain c' where
    r: "Cache_removeElement c e = Inr c'" and w': "Cache_wf c'"
    and e': "entries c' = filter (\<lambda>x. fst x \<noteq> fst (ent (heap c) e)) (entries c)"
    and wo: "world c' = fire (OnEvicted c) [ent (heap c) e] (world c)"
    by blast
  have "mset (entries c) = mset (entries c') + {#(entry_key en, entry_value en)#}"
    using mset_filter_key [OF entries_distinct [OF w] mem] by (simp add: e' ee)
  with r w' wo e' ee show ?thesis by simp
qed

lemma Add_fires_evicted:
  assumes "Cache_wf c"
  shows "\<exists>c' ev. Cache_Add c k v = Inr c' \<and> Cache_wf c' \<and>
           world c' = fire (OnEvicted c) ev (world c) \<and> length ev \<le> 1 \<and>
           mset (entries c') + mset ev = mset ((k, v) # filter (\<lambda>x. fst x \<noteq> k) (entries c))"
proof -
  from Add_ok [OF assms, of k v] obtain c' where
    a: "Cache_Add c k v = Inr c'" and w': "Cache_wf c'"
    and e: "entries c' = lru_add_entries (MaxEntries c) (entries c) k v"
    and wo: "world c' = fire (OnEvicted c) (lru_add_evicted (MaxEntries c) (entries c) k v) (world c)"
    by blast
  from lru_add_conservation [of "MaxEntries c" "entries c" k v]
  have "mset (entries c') + mset (lru_add_evicted (MaxEntries c) (entries c) k v) =
          mset ((k, v) # filter (\<lambda>x. fst x \<noteq> k) (entries c))"
    and "length (lru_add_evicted (MaxEntries c) (entries c) k v) \<le> 1"
    unfolding e by blast+
  with a w' wo show ?thesis by blast
qed

lemma Remove_fires_evicted:
  assumes "Cache_wf c"
  shows "\<exists>c' ev. Cache_Remove c k = Inr c' \<and> Cache_wf c' \<and>
           world c' = fire (OnEvicted c) ev (world c) \<and>
           length ev \<le> 1 \<and> mset (entries c) = mset (entries c') + mset ev"
proof -
  from Remove_ok [OF assms, of k] obtain c' where
    r: "Cache_Remove c k = Inr c'" and w': "Cache_wf c'"
    and e: "entries c' = filter (\<lambda>x. fst x \<noteq> k) (entries c)"
    and wo: "world c' = fire (OnEvicted c)
              (case map_of (entries c) k of None \<Rightarrow> [] | Some v \<Rightarrow> [(k, v)]) (world c)"
    by blast
  have "mset (entries c) = mset (entries c') +
          mset (case map_of (entries c) k of None \<Rightarrow> [] | Some v \<Rightarrow> [(k, v)])"
    unfolding e by (rule remove_conservation [OF entries_distinct [OF assms]])
  moreover have "length (case map_of (entries c) k of None \<Rightarrow> [] | Some v \<Rightarrow> [(k, v)]) \<le> 1"
    by (simp split: option.splits)
  ultimately show ?thesis using r w' wo by blast
qed

lemma RemoveOldest_fires_evicted:
  assumes "Cache_wf c"
  shows "\<exists>c' ev. Cache_RemoveOldest c = Inr c' \<and> Cache_wf c' \<and>
           world c' = fire (OnEvicted c) ev (world c) \<and>
           length ev \<le> 1 \<and> mset (entries c) = mset (entries c') + mset ev"
proof -
  from RemoveOldest_ok [OF assms] obtain c' where cc:
    "Cache_RemoveOldest c = Inr c' \<and> Cache_wf c' \<and> (cache c' = None) = (cache c = None) \<and>
     entries c' = butlast (entries c) \<and>
     world c' = fire (OnEvicted c) (tail_entry (entries c)) (world c) \<and>
     MaxEntries c' = MaxEntries c \<and> OnEvicted c' = OnEvicted c" ..
  then have r: "Cache_RemoveOldest c = Inr c'" and w': "Cache_wf c'"
    and e: "entries c' = butlast (entries c)"
    and wo: "world c' = fire (OnEvicted c) (tail_entry (entries c)) (world c)"
    by (intro conjunct1 [OF cc] conjunct1 [OF conjunct2 [OF cc]], simp_all only:)
  have "mset (entries c) = mset (entries c') + mset (tail_entry (entries c))"
    unfolding e by (rule mset_butlast_tail)
  moreover have "length (tail_entry (entries c)) \<le> 1" by (simp add: tail_entry_def)
  ultimately show ?thesis using r w' wo by blast
qed

lemma Clear_fires_all:
  assumes w: "Cache_wf c" and m: "cache c = Some m" and d: "distinct ord" and s: "set ord = dom m"
  shows "\<exists>c' calls. Cache_Clear c ord = Inr c' \<and> Cache_wf c' \<and> ll c' = None \<and>
           cache c' = None \<and> entries c' = [] \<and>
           world c' = fire (OnEvicted c) calls (world c) \<and> mset calls = mset (entries c)"
proof -
  have "dom m = fst ` set (entries c)"
    using present_iff [OF w m] by (auto simp: dom_def)
  then have s': "set ord = fst ` set (entries c)" using s by simp
  from Clear_ok [OF w, of ord] obtain c' where
    r: "Cache_Clear c ord = Inr c'" and w': "Cache_wf c'" and l': "ll c' = None"
    and m': "cache c' = None" and e: "entries c' = []"
    and wo: "world c' = fire (OnEvicted c) (clear_calls (entries c) ord) (world c)"
    by blast
  have "mset (clear_calls (entries c) ord) = mset (entries c)"
    by (rule clear_calls_all [OF entries_distinct [OF w] d s'])
  with r w' l' m' e wo show ?thesis by blast
qed

lemma Clear_nil_fires_none:
  assumes "cache c = None"
  shows "\<exists>c'. Cache_Clear c ord = Inr c' \<and> Cache_wf c' \<and> ll c' = None \<and> cache c' = None \<and>
           entries c' = [] \<and> world c' = world c"
proof -
  define c' where "c' = c\<lparr>ll := None, cache := None, world := world c\<rparr>"
  have r: "Cache_Clear c ord = Inr c'"
    by (simp add: Cache_Clear_def foldl_Clear_call_nil [OF assms] c'_def split: option.splits)
  have f: "ll c' = None" "cache c' = None" "world c' = world c" by (simp_all add: c'_def)
  have "Cache_wf c'" by (rule wf_nil [OF f(1,2)])
  moreover have "entries c' = []" by (simp add: entries_def f(1))
  ultimately show ?thesis using r f by blast
qed

lemma Clear_twice_fires_once:
  assumes w: "Cache_wf c"
  shows "\<exists>c' c''. Cache_Clear c ord = Inr c' \<and> Cache_Clear c' ord' = Inr c'' \<and>
           world c'' = world c' \<and> entries c'' = []"
proof -
  from Clear_ok [OF w, of ord] obtain c' where
    r: "Cache_Clear c ord = Inr c'" and m': "cache c' = None"
    by blast
  from Clear_nil_fires_none [OF m', of ord'] obtain c'' where
    "Cache_Clear c' ord' = Inr c''" "world c'' = world c'" "entries c'' = []"
    by blast
  with r show ?thesis by blast
qed


text \<open>
  C5. On a well-formed cache the callback is called exactly once for each entry that
  leaves the cache, with the key and value of that entry, and never otherwise, and the
  cache that results is well formed again (its map holds exactly the keys of its list, so
  no entry can be reported a second time):
  \<^verbatim>\<open>removeElement\<close> calls it once, with the entry of the element it removes, and the
  entries afterwards are the others;
  \<^verbatim>\<open>Add\<close>, \<^verbatim>\<open>Remove\<close> and \<^verbatim>\<open>RemoveOldest\<close> call it for a list \<open>ev\<close> of at most one entry
  such that the entries before the call (with the added entry in place of the old entry of
  its key, for \<^verbatim>\<open>Add\<close>) are the entries afterwards together with \<open>ev\<close>; and
  \<^verbatim>\<open>Clear\<close>, ranging over the keys of the map in any order, calls it for a list of
  entries that holds every entry of the cache exactly once and leaves the list and the map
  nil; on a cache whose map is nil \<^verbatim>\<open>Clear\<close> calls nothing, so a second \<^verbatim>\<open>Clear\<close> calls
  nothing. Here \<open>fire cb ev w\<close> is the state after the calls: nothing happens without a
  callback, one entry is one call, and the recording callback appends exactly \<open>ev\<close> to
  its record. In the scenario, a cache of capacity 2 after the adds of (A, 1), (B, 2),
  (C, 3) holds C and B, and the record of the callback is the single call (A, 1).
\<close>

theorem eviction_callback_exactly_once:
  assumes "Cache_wf c"
  shows "(\<forall>l e en. ll c = Some l \<and> e \<in> set l \<and> heap c e = Some en \<longrightarrow>
            (\<exists>c'. Cache_removeElement c e = Inr c' \<and> Cache_wf c' \<and>
               world c' = fire (OnEvicted c) [(entry_key en, entry_value en)] (world c) \<and>
               entries c' = filter (\<lambda>x. fst x \<noteq> entry_key en) (entries c) \<and>
               mset (entries c) = mset (entries c') + {#(entry_key en, entry_value en)#})) \<and>
         (\<exists>c' ev. Cache_Add c k v = Inr c' \<and> Cache_wf c' \<and>
            world c' = fire (OnEvicted c) ev (world c) \<and> length ev \<le> 1 \<and>
            mset (entries c') + mset ev = mset ((k, v) # filter (\<lambda>x. fst x \<noteq> k) (entries c))) \<and>
         (\<exists>c' ev. Cache_Remove c k = Inr c' \<and> Cache_wf c' \<and>
            world c' = fire (OnEvicted c) ev (world c) \<and>
            length ev \<le> 1 \<and> mset (entries c) = mset (entries c') + mset ev) \<and>
         (\<exists>c' ev. Cache_RemoveOldest c = Inr c' \<and> Cache_wf c' \<and>
            world c' = fire (OnEvicted c) ev (world c) \<and>
            length ev \<le> 1 \<and> mset (entries c) = mset (entries c') + mset ev) \<and>
         (\<forall>m. cache c = Some m \<and> distinct ord \<and> set ord = dom m \<longrightarrow>
            (\<exists>c' calls. Cache_Clear c ord = Inr c' \<and> Cache_wf c' \<and> ll c' = None \<and>
               cache c' = None \<and> entries c' = [] \<and>
               world c' = fire (OnEvicted c) calls (world c) \<and> mset calls = mset (entries c))) \<and>
         (cache c = None \<longrightarrow>
            (\<exists>c'. Cache_Clear c ord = Inr c' \<and> Cache_wf c' \<and> ll c' = None \<and>
               cache c' = None \<and> entries c' = [] \<and> world c' = world c)) \<and>
         (\<exists>c' c''. Cache_Clear c ord = Inr c' \<and> Cache_Clear c' ord' = Inr c'' \<and>
            world c'' = world c' \<and> entries c'' = []) \<and>
         fire None evs w = w \<and>
         fire (Some f) [] w = w \<and>
         fire (Some f) [(k', v')] w = f k' v' w \<and>
         fire (Some record_call) evs' w' = w' @ evs' \<and>
         observe (Cache_Adds capacity_two [(''A'', 1), (''B'', 2), (''C'', 3)]) =
           Inr ([(''C'', 3), (''B'', 2)], [(''A'', 1)])"
proof (intro conjI allI impI)
  fix l e en assume "ll c = Some l \<and> e \<in> set l \<and> heap c e = Some en"
  then have "ll c = Some l" "e \<in> set l" "heap c e = Some en" by blast+
  then show "\<exists>c'. Cache_removeElement c e = Inr c' \<and> Cache_wf c' \<and>
               world c' = fire (OnEvicted c) [(entry_key en, entry_value en)] (world c) \<and>
               entries c' = filter (\<lambda>x. fst x \<noteq> entry_key en) (entries c) \<and>
               mset (entries c) = mset (entries c') + {#(entry_key en, entry_value en)#}"
    by (rule removeElement_fires_once [OF assms])
next
  show "\<exists>c' ev. Cache_Add c k v = Inr c' \<and> Cache_wf c' \<and>
            world c' = fire (OnEvicted c) ev (world c) \<and> length ev \<le> 1 \<and>
            mset (entries c') + mset ev = mset ((k, v) # filter (\<lambda>x. fst x \<noteq> k) (entries c))"
    by (rule Add_fires_evicted [OF assms])
next
  show "\<exists>c' ev. Cache_Remove c k = Inr c' \<and> Cache_wf c' \<and>
            world c' = fire (OnEvicted c) ev (world c) \<and>
            length ev \<le> 1 \<and> mset (entries c) = mset (entries c') + mset ev"
    by (rule Remove_fires_evicted [OF assms])
next
  show "\<exists>c' ev. Cache_RemoveOldest c = Inr c' \<and> Cache_wf c' \<and>
            world c' = fire (OnEvicted c) ev (world c) \<and>
            length ev \<le> 1 \<and> mset (entries c) = mset (entries c') + mset ev"
    by (rule RemoveOldest_fires_evicted [OF assms])
next
  fix m assume "cache c = Some m \<and> distinct ord \<and> set ord = dom m"
  then have "cache c = Some m" "distinct ord" "set ord = dom m" by blast+
  then show "\<exists>c' calls. Cache_Clear c ord = Inr c' \<and> Cache_wf c' \<and> ll c' = None \<and>
               cache c' = None \<and> entries c' = [] \<and>
               world c' = fire (OnEvicted c) calls (world c) \<and> mset calls = mset (entries c)"
    by (rule Clear_fires_all [OF assms])
next
  assume "cache c = None"
  then show "\<exists>c'. Cache_Clear c ord = Inr c' \<and> Cache_wf c' \<and> ll c' = None \<and>
               cache c' = None \<and> entries c' = [] \<and> world c' = world c"
    by (rule Clear_nil_fires_none)
next
  show "\<exists>c' c''. Cache_Clear c ord = Inr c' \<and> Cache_Clear c' ord' = Inr c'' \<and>
            world c'' = world c' \<and> entries c'' = []"
    by (rule Clear_twice_fires_once [OF assms])
next
  show "fire None evs w = w" by (simp add: fire_def)
  show "fire (Some f) [] w = w" by (simp add: fire_def)
  show "fire (Some f) [(k', v')] w = f k' v' w" by (simp add: fire_def)
  show "fire (Some record_call) evs' w' = w' @ evs'" by (rule fire_record)
  show "observe (Cache_Adds capacity_two [(''A'', 1), (''B'', 2), (''C'', 3)]) =
           Inr ([(''C'', 3), (''B'', 2)], [(''A'', 1)])"
    by (rule capacity_two_scenario)
qed

theorem eviction_callback_exactly_once_witness:
  "Cache_wf over_cache \<and>
   cache over_cache = Some [''A'' \<mapsto> 0, ''B'' \<mapsto> 1] \<and>
   distinct [''B'', ''A''] \<and> set [''B'', ''A''] = dom [''A'' \<mapsto> 0::nat, ''B'' \<mapsto> 1] \<and>
   (\<exists>c' calls. Cache_Clear over_cache [''B'', ''A''] = Inr c' \<and> Cache_wf c' \<and>
      cache c' = None \<and> entries c' = [] \<and>
      world c' = calls \<and> mset calls = mset [(''B'', 2), (''A'', 1)]) \<and>
   (\<exists>c' ev. Cache_RemoveOldest over_cache = Inr c' \<and> Cache_wf c' \<and> world c' = ev \<and>
      length ev \<le> 1 \<and> mset [(''B'', 2), (''A'', 1)] = mset (entries c') + mset ev) \<and>
   cache zero_cache = None \<and> Cache_wf zero_cache \<and>
   (\<exists>c'. Cache_Clear zero_cache [] = Inr c' \<and> cache c' = None \<and> world c' = [])"
proof -
  have c: "cache over_cache = Some [''A'' \<mapsto> 0, ''B'' \<mapsto> 1]" by (simp add: over_cache_def)
  have d: "distinct [''B'', ''A'']" by simp
  have s: "set [''B'', ''A''] = dom [''A'' \<mapsto> 0::nat, ''B'' \<mapsto> 1]" by auto
  have e: "entries over_cache = [(''B'', 2), (''A'', 1)]"
    by (simp add: over_cache_def entries_def kv_of_def)
  have o: "OnEvicted over_cache = Some record_call" and w0: "world over_cache = []"
    by (simp_all add: over_cache_def)
  note T = eviction_callback_exactly_once [OF over_cache_wf, where ord = "[''B'', ''A'']"]
  note T4 = T [THEN conjunct2, THEN conjunct2, THEN conjunct2, THEN conjunct1]
  note T5 = T [THEN conjunct2, THEN conjunct2, THEN conjunct2, THEN conjunct2, THEN conjunct1]
  from T5 [THEN spec, THEN mp, OF conjI [OF c conjI [OF d s]]] obtain c1 calls where
    "Cache_Clear over_cache [''B'', ''A''] = Inr c1" "Cache_wf c1" "cache c1 = None"
    "entries c1 = []"
    "world c1 = fire (OnEvicted over_cache) calls (world over_cache)"
    "mset calls = mset (entries over_cache)"
    by blast
  then have "Cache_Clear over_cache [''B'', ''A''] = Inr c1 \<and> Cache_wf c1 \<and> cache c1 = None \<and>
      entries c1 = [] \<and> world c1 = calls \<and> mset calls = mset [(''B'', 2), (''A'', 1)]"
    by (simp add: o w0 e fire_record)
  then have cl: "\<exists>c' calls. Cache_Clear over_cache [''B'', ''A''] = Inr c' \<and> Cache_wf c' \<and>
      cache c' = None \<and> entries c' = [] \<and>
      world c' = calls \<and> mset calls = mset [(''B'', 2), (''A'', 1)]"
    by blast
  from T4 obtain c2 ev where
    "Cache_RemoveOldest over_cache = Inr c2" "Cache_wf c2"
    "world c2 = fire (OnEvicted over_cache) ev (world over_cache)" "length ev \<le> 1"
    "mset (entries over_cache) = mset (entries c2) + mset ev"
    by blast
  then have "Cache_RemoveOldest over_cache = Inr c2 \<and> Cache_wf c2 \<and> world c2 = ev \<and>
      length ev \<le> 1 \<and> mset [(''B'', 2), (''A'', 1)] = mset (entries c2) + mset ev"
    by (simp add: o w0 e fire_record)
  then have ro: "\<exists>c' ev. Cache_RemoveOldest over_cache = Inr c' \<and> Cache_wf c' \<and> world c' = ev \<and>
      length ev \<le> 1 \<and> mset [(''B'', 2), (''A'', 1)] = mset (entries c') + mset ev"
    by blast
  have zn: "cache zero_cache = None" and zw0: "world zero_cache = []"
    by (simp_all add: zero_cache_def lru_zero_def)
  have zw: "Cache_wf zero_cache" unfolding zero_cache_def by (rule wf_lru_zero)
  note Z = eviction_callback_exactly_once [OF zw, where ord = "[]"]
  note Z6 = Z [THEN conjunct2, THEN conjunct2, THEN conjunct2, THEN conjunct2, THEN conjunct2,
      THEN conjunct1]
  from Z6 [THEN mp, OF zn] obtain c3 where
    "Cache_Clear zero_cache [] = Inr c3" "cache c3 = None" "world c3 = world zero_cache"
    by blast
  then have zc: "\<exists>c'. Cache_Clear zero_cache [] = Inr c' \<and> cache c' = None \<and> world c' = []"
    by (simp add: zw0)
  show ?thesis by (intro conjI over_cache_wf c d s cl ro zn zw zc)
qed

end
